theory Spec2Isabelle
  imports Main "HOL-Library.Word" "HOL-Library.List_Lexorder"
begin

section \<open>Strings\<close>

text \<open>
  A JavaScript string is a sequence of UTF-16 code units.  String literals of the
  source are written \<open>str ''...''\<close>, single characters \<open>ch CHR ''x''\<close>.
\<close>

type_synonym cu = "16 word"
type_synonym jsstring = "cu list"

definition ch :: "char \<Rightarrow> cu" where
  "ch c = of_char c"

definition str :: "string \<Rightarrow> jsstring" where
  "str s = map ch s"

text \<open>\<^verbatim>\<open>String.prototype.replaceAll\<close> for a one-character pattern.\<close>

definition replaceAll :: "cu \<Rightarrow> jsstring \<Rightarrow> jsstring \<Rightarrow> jsstring" where
  "replaceAll c rep s = concat (map (\<lambda>x. if x = c then rep else [x]) s)"

text \<open>
  \<^verbatim>\<open>String.prototype.trim\<close> strips the ECMAScript white space and line terminator
  code units from both ends.
\<close>

definition isJsWhitespace :: "cu \<Rightarrow> bool" where
  "isJsWhitespace c \<longleftrightarrow>
     c \<in> {0x9, 0xA, 0xB, 0xC, 0xD, 0x20, 0xA0, 0x1680, 0x2028, 0x2029, 0x202F, 0x205F,
          0x3000, 0xFEFF} \<or> (0x2000 \<le> c \<and> c \<le> 0x200A)"

definition trim :: "jsstring \<Rightarrow> jsstring" where
  "trim s = rev (dropWhile isJsWhitespace (rev (dropWhile isJsWhitespace s)))"

section \<open>util.ts\<close>

definition encodeXmlEntities :: "jsstring \<Rightarrow> jsstring" where
  "encodeXmlEntities raw =
     replaceAll (ch CHR ''>'') (str ''&gt;'')
       (replaceAll (ch CHR 0x27) (str ''&apos;'')
         (replaceAll (ch CHR 0x22) (str ''&quot;'')
           (replaceAll (ch CHR ''<'') (str ''&lt;'')
             (replaceAll (ch CHR ''&'') (str ''&amp;'') raw))))"

section \<open>node.ts: names and trees as values\<close>

record xml_name =
  prefix :: jsstring
  name :: jsstring

definition XmlName :: "jsstring \<Rightarrow> jsstring \<Rightarrow> xml_name" where
  "XmlName p n = \<lparr>prefix = p, name = n\<rparr>"

definition nameToString :: "xml_name \<Rightarrow> jsstring" where
  "nameToString n = (if prefix n \<noteq> [] then prefix n @ str '':'' @ name n else name n)"

definition equals :: "xml_name \<Rightarrow> xml_name \<Rightarrow> bool" where
  "equals n other \<longleftrightarrow> prefix n = prefix other \<and> name n = name other"

text \<open>
  \<^verbatim>\<open>type XmlNode = XmlElement | XmlText\<close>.  The parser, the serializer and the
  mapper read and build trees without relying on object identity or on the parent
  link, so for them a node is a value: a text or an element with its name, attribute
  pairs and children.
\<close>

datatype xml_node =
    Text jsstring
  | Element (elem_name: xml_name) (elem_attrs: "(xml_name \<times> jsstring) list")
      (elem_children: "xml_node list")

text \<open>
  \<^verbatim>\<open>XmlElement.toString\<close>.  \<^verbatim>\<open>children.join("")\<close> converts each child with its own
  \<^verbatim>\<open>toString\<close>: an element child recursively, a text child as the string itself.
\<close>

fun toString :: "xml_node \<Rightarrow> jsstring" where
  "toString (Text s) = s"
| "toString (Element n as cs) =
     str ''<'' @ nameToString n
       @ concat (map (\<lambda>(an, v). str '' '' @ nameToString an @ str ''='' @ [ch CHR 0x22]
                        @ encodeXmlEntities v @ [ch CHR 0x22]) as)
       @ (if cs \<noteq> []
          then str ''>'' @ concat (map toString cs) @ str ''</'' @ nameToString n @ str ''>''
          else str ''/>'')"

text \<open>
  \<^verbatim>\<open>addChild(child)\<close> with the default position on a tree value: the child is appended.
  (The checks of \<^verbatim>\<open>addChild\<close> are modelled on the store, see \<open>addChild\<close> below.)
\<close>

fun appendChild :: "xml_node \<Rightarrow> xml_node \<Rightarrow> xml_node" where
  "appendChild (Element n as cs) c = Element n as (cs @ [c])"
| "appendChild (Text s) c = Text s"

section \<open>parser.ts: errors\<close>

text \<open>
  The message of an \<^verbatim>\<open>XmlParseError\<close>, with the values the source interpolates into it.
\<close>

datatype description =
    UnexpectedEnd
  | ExpectedButGot cu cu
  | ExpectedOneOfButGot jsstring cu
  | Expected jsstring
  | HexadecimalEntityInvalid
  | DecimalEntityInvalid
  | InvalidEntityReference jsstring
  | InvalidCodePoint nat
  | UnexpectedClosingTag
  | MismatchedClosingTag jsstring jsstring
  | TopLevelText
  | MultipleTopLevelElements
  | NoRootElement

text \<open>The messages of the other errors the repository throws.\<close>

datatype message =
    CannotAddChildAtOutOfBoundsPosition int
  | CannotAddChildThatAlreadyHasParent
  | NoParentCannotBeDetached
  | InvalidCodePointMessage

text \<open>
  A \<^verbatim>\<open>ValuePath\<close> of the validation library is the list of its components; its method
  \<^verbatim>\<open>isBadAsIt(msg)\<close> builds the error that the mapper throws, with one of these
  messages.
\<close>

datatype component =
    Root jsstring
  | AttrComponent jsstring
  | ChildText nat
  | ChildElement nat jsstring

type_synonym path = "component list"

datatype mapper_message =
    NotAnElementWithTheName jsstring
  | HasUnexpectedAttribute jsstring
  | IsMissingAttributes "jsstring list"
  | IsUnexpected
  | DoesNotHaveMoreElements int jsstring
  | DoesNotHaveExpectedTextContent

text \<open>
  Everything the repository throws.  \<open>ValidationError\<close> stands for whatever a validator
  of the validation library throws.
\<close>

datatype error =
    XmlParseError description nat nat
  | TypeError
  | RangeError message
  | ReferenceError message
  | Error message
  | IsBadAsIt path mapper_message
  | AssertionError
  | ValidationError jsstring

type_synonym 'a result = "error + 'a"

fun bind :: "'a result \<Rightarrow> ('a \<Rightarrow> 'b result) \<Rightarrow> 'b result" where
  "bind (Inl e) f = Inl e"
| "bind (Inr x) f = f x"

lemma bind_weak_cong: "m = m' \<Longrightarrow> bind m f = bind m' f"
  by simp

section \<open>parser.ts: Lexer\<close>

record lexer =
  src :: jsstring
  nxt :: nat
  line :: nat
  col :: nat

definition Lexer :: "jsstring \<Rightarrow> lexer" where
  "Lexer s = \<lparr>src = s, nxt = 0, line = 1, col = 0\<rparr>"

definition err :: "lexer \<Rightarrow> description \<Rightarrow> error" where
  "err l msg = XmlParseError msg (line l) (col l)"

text \<open>\<^verbatim>\<open>s[i]\<close> is \<^verbatim>\<open>undefined\<close> out of range, also at index \<open>-1\<close>.\<close>

definition charAt :: "jsstring \<Rightarrow> int \<Rightarrow> cu option" where
  "charAt s i = (if 0 \<le> i \<and> i < int (length s) then Some (s ! nat i) else None)"

definition peek :: "lexer \<Rightarrow> cu option" where
  "peek l = charAt (src l) (int (nxt l))"

definition isEnd :: "lexer \<Rightarrow> bool" where
  "isEnd l \<longleftrightarrow> peek l = None"

definition consumeOrEnd :: "lexer \<Rightarrow> cu option \<times> lexer" where
  "consumeOrEnd l =
     (case charAt (src l) (int (nxt l)) of
        None \<Rightarrow> (None, l)
      | Some char \<Rightarrow>
          (let l' =
             (if char = ch CHR 0x0D
                 \<or> (char = ch CHR 0x0A \<and> charAt (src l) (int (nxt l) - 1) \<noteq> Some (ch CHR 0x0D))
              then l\<lparr>line := line l + 1, col := 0\<rparr>
              else if char \<noteq> ch CHR 0x0A then l\<lparr>col := col l + 1\<rparr>
              else l)
           in (Some char, l'\<lparr>nxt := nxt l + 1\<rparr>)))"

definition consume :: "lexer \<Rightarrow> (cu \<times> lexer) result" where
  "consume l =
     (case consumeOrEnd l of
        (None, l') \<Rightarrow> Inl (err l' UnexpectedEnd)
      | (Some b, l') \<Rightarrow> Inr (b, l'))"

definition expect :: "cu \<Rightarrow> lexer \<Rightarrow> lexer result" where
  "expect c l =
     bind (consume l) (\<lambda>(b, l'). if b \<noteq> c then Inl (err l' (ExpectedButGot c b)) else Inr l')"

definition expectOneOf :: "jsstring \<Rightarrow> lexer \<Rightarrow> (cu \<times> lexer) result" where
  "expectOneOf charset l =
     bind (consume l) (\<lambda>(got, l').
       if got \<notin> set charset then Inl (err l' (ExpectedOneOfButGot charset got))
       else Inr (got, l'))"

definition maybeExpect :: "cu \<Rightarrow> lexer \<Rightarrow> (bool \<times> lexer) result" where
  "maybeExpect c l =
     (if Some c = peek l then bind (consume l) (\<lambda>(b, l'). Inr (True, l'))
      else Inr (False, l))"

definition maybeExpectOneOf :: "jsstring \<Rightarrow> lexer \<Rightarrow> (cu option \<times> lexer) result" where
  "maybeExpectOneOf c l =
     (case peek l of
        Some b \<Rightarrow>
          if b \<in> set c then bind (consume l) (\<lambda>(b', l'). Inr (Some b', l'))
          else Inr (None, l)
      | None \<Rightarrow> Inr (None, l))"

definition maybeExpectNotOneOf :: "jsstring \<Rightarrow> lexer \<Rightarrow> (cu option \<times> lexer) result" where
  "maybeExpectNotOneOf c l =
     (if peek l = None \<or> the (peek l) \<notin> set c
      then bind (consume l) (\<lambda>(b', l'). Inr (Some b', l'))
      else Inr (None, l))"

definition skipIf :: "cu \<Rightarrow> lexer \<Rightarrow> (bool \<times> lexer) result" where
  "skipIf c l =
     (if peek l = Some c then bind (consume l) (\<lambda>(b, l'). Inr (True, l'))
      else Inr (False, l))"

text \<open>The number of code units that are still to be read: the measure of every loop.\<close>

definition remaining :: "lexer \<Rightarrow> nat" where
  "remaining l = length (src l) - nxt l"

lemma consumeOrEnd_Some:
  "consumeOrEnd l = (Some c, l') \<Longrightarrow>
     src l' = src l \<and> nxt l' = Suc (nxt l) \<and> nxt l < length (src l) \<and> src l ! nxt l = c"
  by (auto simp: consumeOrEnd_def charAt_def Let_def split: option.splits if_splits)

lemma consumeOrEnd_None: "consumeOrEnd l = (None, l') \<Longrightarrow> l' = l"
  by (auto simp: consumeOrEnd_def Let_def split: option.splits)

lemma consume_Inr:
  "consume l = Inr (c, l') \<Longrightarrow>
     src l' = src l \<and> nxt l' = Suc (nxt l) \<and> nxt l < length (src l) \<and> src l ! nxt l = c"
  by (auto simp: consume_def split: prod.splits option.splits dest: consumeOrEnd_Some)

lemma consume_remaining: "consume l = Inr (c, l') \<Longrightarrow> remaining l' < remaining l"
  using consume_Inr [of l c l'] by (auto simp: remaining_def)

lemma maybeExpectOneOf_Some:
  "maybeExpectOneOf cs l = Inr (Some c, l') \<Longrightarrow> consume l = Inr (c, l') \<and> c \<in> set cs"
  by (cases "consume l")
     (auto simp: maybeExpectOneOf_def peek_def charAt_def split: option.splits if_splits
           dest: consume_Inr)

lemma maybeExpectOneOf_None: "maybeExpectOneOf cs l = Inr (None, l') \<Longrightarrow> l' = l"
  by (cases "consume l") (auto simp: maybeExpectOneOf_def split: option.splits if_splits)

lemma maybeExpectNotOneOf_Some:
  "maybeExpectNotOneOf cs l = Inr (Some c, l') \<Longrightarrow> consume l = Inr (c, l') \<and> c \<notin> set cs"
  by (cases "consume l")
     (auto simp: maybeExpectNotOneOf_def peek_def charAt_def split: option.splits if_splits
           dest: consume_Inr)

text \<open>
  The loops of the lexer consume one code unit per iteration; their equations are
  unfolded by hand, not by the simplifier.
\<close>

function consumeWhile :: "jsstring \<Rightarrow> lexer \<Rightarrow> jsstring \<Rightarrow> (jsstring \<times> lexer) result" where
  "consumeWhile charset l chars =
     (case maybeExpectOneOf charset l of
        Inl e \<Rightarrow> Inl e
      | Inr (Some char, l') \<Rightarrow> consumeWhile charset l' (chars @ [char])
      | Inr (None, l') \<Rightarrow> Inr (chars, l'))"
  by pat_completeness auto
termination
  by (relation "measure (\<lambda>(cs, l, acc). remaining l)")
     (auto dest!: maybeExpectOneOf_Some consume_remaining)

declare consumeWhile.simps [simp del]

function expectOneOrMoreOfLoop :: "jsstring \<Rightarrow> lexer \<Rightarrow> jsstring \<Rightarrow> (jsstring \<times> lexer) result"
  where
  "expectOneOrMoreOfLoop charset l matches =
     (case maybeExpectOneOf charset l of
        Inl e \<Rightarrow> Inl e
      | Inr (Some char, l') \<Rightarrow> expectOneOrMoreOfLoop charset l' (matches @ [char])
      | Inr (None, l') \<Rightarrow> Inr (matches, l'))"
  by pat_completeness auto
termination
  by (relation "measure (\<lambda>(cs, l, acc). remaining l)")
     (auto dest!: maybeExpectOneOf_Some consume_remaining)

declare expectOneOrMoreOfLoop.simps [simp del]

definition expectOneOrMoreOf :: "jsstring \<Rightarrow> jsstring \<Rightarrow> lexer \<Rightarrow> (jsstring \<times> lexer) result"
  where
  "expectOneOrMoreOf charset expectName l =
     bind (expectOneOrMoreOfLoop charset l []) (\<lambda>(matches, l').
       if matches = [] then Inl (err l' (Expected expectName)) else Inr (matches, l'))"

function skipWhile :: "jsstring \<Rightarrow> lexer \<Rightarrow> nat \<Rightarrow> (nat \<times> lexer) result" where
  "skipWhile charset l count =
     (case maybeExpectOneOf charset l of
        Inl e \<Rightarrow> Inl e
      | Inr (Some char, l') \<Rightarrow> skipWhile charset l' (count + 1)
      | Inr (None, l') \<Rightarrow> Inr (count, l'))"
  by pat_completeness auto
termination
  by (relation "measure (\<lambda>(cs, l, n). remaining l)")
     (auto dest!: maybeExpectOneOf_Some consume_remaining)

declare skipWhile.simps [simp del]

function skipUntil :: "jsstring \<Rightarrow> lexer \<Rightarrow> nat \<Rightarrow> (nat \<times> lexer) result" where
  "skipUntil charset l count =
     (case maybeExpectNotOneOf charset l of
        Inl e \<Rightarrow> Inl e
      | Inr (Some char, l') \<Rightarrow> skipUntil charset l' (count + 1)
      | Inr (None, l') \<Rightarrow> Inr (count, l'))"
  by pat_completeness auto
termination
  by (relation "measure (\<lambda>(cs, l, n). remaining l)")
     (auto dest!: maybeExpectNotOneOf_Some consume_remaining)

declare skipUntil.simps [simp del]


lemma expect_Inr:
  "expect c l = Inr l' \<Longrightarrow> consume l = Inr (c, l')"
  by (cases "consume l") (auto simp: expect_def split: if_splits)

lemma expect_remaining: "expect c l = Inr l' \<Longrightarrow> remaining l' < remaining l"
  by (blast dest: expect_Inr consume_remaining)

lemma expectOneOf_Inr:
  "expectOneOf cs l = Inr (c, l') \<Longrightarrow> consume l = Inr (c, l') \<and> c \<in> set cs"
  by (cases "consume l") (auto simp: expectOneOf_def split: if_splits)

lemma expectOneOf_remaining: "expectOneOf cs l = Inr (c, l') \<Longrightarrow> remaining l' < remaining l"
  by (blast dest: expectOneOf_Inr consume_remaining)

lemma skipIf_True: "skipIf c l = Inr (True, l') \<Longrightarrow> consume l = Inr (c, l')"
  by (cases "consume l")
     (auto simp: skipIf_def peek_def charAt_def split: if_splits dest: consume_Inr)

lemma skipIf_False: "skipIf c l = Inr (False, l') \<Longrightarrow> l' = l \<and> peek l \<noteq> Some c"
  by (cases "consume l") (auto simp: skipIf_def split: if_splits)

lemma skipIf_remaining: "skipIf c l = Inr (b, l') \<Longrightarrow> remaining l' \<le> remaining l"
  using skipIf_True [of c l l'] skipIf_False [of c l l'] consume_remaining [of l c l']
  by (cases b) auto

lemma maybeExpect_True: "maybeExpect c l = Inr (True, l') \<Longrightarrow> consume l = Inr (c, l')"
  by (cases "consume l")
     (auto simp: maybeExpect_def peek_def charAt_def split: if_splits dest: consume_Inr)

lemma maybeExpect_False: "maybeExpect c l = Inr (False, l') \<Longrightarrow> l' = l \<and> peek l \<noteq> Some c"
  by (cases "consume l") (auto simp: maybeExpect_def split: if_splits)

lemma maybeExpect_remaining: "maybeExpect c l = Inr (b, l') \<Longrightarrow> remaining l' \<le> remaining l"
  using maybeExpect_True [of c l l'] maybeExpect_False [of c l l'] consume_remaining [of l c l']
  by (cases b) auto

lemma consumeWhile_remaining:
  "consumeWhile cs l acc = Inr (s, l') \<Longrightarrow>
     remaining l' + length s = remaining l + length acc"
proof (induction cs l acc rule: consumeWhile.induct)
  case (1 charset l chars)
  note unf = "1.prems" [unfolded consumeWhile.simps [of charset l chars]]
  show ?case
  proof (cases "maybeExpectOneOf charset l")
    case (Inl e)
    with unf show ?thesis by simp
  next
    case (Inr p)
    obtain x l1 where p: "p = (x, l1)" by (cases p)
    show ?thesis
    proof (cases x)
      case None
      with unf Inr p maybeExpectOneOf_None [of charset l l1] show ?thesis by simp
    next
      case (Some c)
      with Inr p have m: "maybeExpectOneOf charset l = Inr (Some c, l1)" by simp
      from maybeExpectOneOf_Some [OF m] have "consume l = Inr (c, l1)" by simp
      from consume_Inr [OF this] have "remaining l = Suc (remaining l1)"
        by (auto simp: remaining_def)
      moreover from unf m have "consumeWhile charset l1 (chars @ [c]) = Inr (s, l')"
        by simp
      from "1.IH" [OF m refl refl this]
      have "remaining l' + length s = remaining l1 + length (chars @ [c])" .
      ultimately show ?thesis by simp
    qed
  qed
qed

lemma expectOneOrMoreOfLoop_eq: "expectOneOrMoreOfLoop cs l acc = consumeWhile cs l acc"
proof (induction cs l acc rule: consumeWhile.induct)
  case (1 charset l chars)
  show ?case
    by (subst expectOneOrMoreOfLoop.simps, subst consumeWhile.simps)
       (auto split: sum.splits prod.splits option.splits simp: "1.IH")
qed

lemma expectOneOrMoreOf_remaining:
  "expectOneOrMoreOf cs label l = Inr (s, l') \<Longrightarrow> remaining l' < remaining l"
proof -
  assume a: "expectOneOrMoreOf cs label l = Inr (s, l')"
  then have "consumeWhile cs l [] = Inr (s, l')" and "s \<noteq> []"
    by (cases "consumeWhile cs l []"; auto simp: expectOneOrMoreOf_def expectOneOrMoreOfLoop_eq
          split: if_splits)+
  with consumeWhile_remaining [of cs l "[]" s l'] show ?thesis
    by (cases s) auto
qed

lemma skipWhile_remaining:
  "skipWhile cs l n = Inr (m, l') \<Longrightarrow> remaining l' \<le> remaining l"
proof (induction cs l n rule: skipWhile.induct)
  case (1 charset l count)
  note unf = "1.prems" [unfolded skipWhile.simps [of charset l count]]
  show ?case
  proof (cases "maybeExpectOneOf charset l")
    case (Inl e)
    with unf show ?thesis by simp
  next
    case (Inr p)
    obtain x l1 where p: "p = (x, l1)" by (cases p)
    show ?thesis
    proof (cases x)
      case None
      with unf Inr p maybeExpectOneOf_None [of charset l l1] show ?thesis by simp
    next
      case (Some c)
      with Inr p have m: "maybeExpectOneOf charset l = Inr (Some c, l1)" by simp
      from maybeExpectOneOf_Some [OF m] consume_remaining
      have "remaining l1 < remaining l" by blast
      moreover from unf m have "skipWhile charset l1 (count + 1) = Inr (m, l')"
        by simp
      from "1.IH" [OF m refl refl this] have "remaining l' \<le> remaining l1" .
      ultimately show ?thesis by simp
    qed
  qed
qed

lemma skipUntil_remaining:
  "skipUntil cs l n = Inr (m, l') \<Longrightarrow> remaining l' \<le> remaining l"
proof (induction cs l n rule: skipUntil.induct)
  case (1 charset l count)
  note unf = "1.prems" [unfolded skipUntil.simps [of charset l count]]
  show ?case
  proof (cases "maybeExpectNotOneOf charset l")
    case (Inl e)
    with unf show ?thesis by simp
  next
    case (Inr p)
    obtain x l1 where p: "p = (x, l1)" by (cases p)
    show ?thesis
    proof (cases x)
      case None
      with Inr p have "l1 = l"
        by (cases "consume l") (auto simp: maybeExpectNotOneOf_def split: if_splits)
      with unf Inr p None show ?thesis by simp
    next
      case (Some c)
      with Inr p have m: "maybeExpectNotOneOf charset l = Inr (Some c, l1)" by simp
      from maybeExpectNotOneOf_Some [OF m] consume_remaining
      have "remaining l1 < remaining l" by blast
      moreover from unf m have "skipUntil charset l1 (count + 1) = Inr (m, l')"
        by simp
      from "1.IH" [OF m refl refl this] have "remaining l' \<le> remaining l1" .
      ultimately show ?thesis by simp
    qed
  qed
qed


section \<open>parser.ts: character classes and entity table\<close>

definition r :: "char \<Rightarrow> char \<Rightarrow> jsstring" where
  "r from to = map of_nat [of_char from ..< of_char to + 1]"

definition LOWERCASE :: jsstring where "LOWERCASE = r CHR ''a'' CHR ''z''"
definition UPPERCASE :: jsstring where "UPPERCASE = r CHR ''A'' CHR ''Z''"
definition DIGIT :: jsstring where "DIGIT = r CHR ''0'' CHR ''9''"
definition HEX :: jsstring where "HEX = r CHR ''a'' CHR ''f'' @ r CHR ''A'' CHR ''F'' @ DIGIT"
definition ALPHANUMERIC :: jsstring where "ALPHANUMERIC = LOWERCASE @ UPPERCASE @ DIGIT"
definition WHITESPACE :: jsstring where
  "WHITESPACE = [ch CHR '' '', ch CHR 0x0D, ch CHR 0x0A, ch CHR 0x09]"
definition QUOTE :: jsstring where "QUOTE = [ch CHR 0x27, ch CHR 0x22]"

definition ENTITY_REFS :: "(jsstring \<times> jsstring) list" where
  "ENTITY_REFS =
     [(str ''amp'', str ''&''),
      (str ''apos'', [ch CHR 0x27]),
      (str ''gt'', str ''>''),
      (str ''lt'', str ''<''),
      (str ''quot'', [ch CHR 0x22])]"

text \<open>
  \<^verbatim>\<open>s.charCodeAt(0)\<close>: the first code unit, \<^verbatim>\<open>NaN\<close> (here \<open>None\<close>) for the empty string.
\<close>

definition charCodeAt0 :: "jsstring \<Rightarrow> nat option" where
  "charCodeAt0 s = (case s of [] \<Rightarrow> None | c # _ \<Rightarrow> Some (unat c))"

text \<open>
  \<^verbatim>\<open>Number.parseInt(num, radix)\<close> on a non-empty string of digits of that radix, which
  is all the parser passes to it.
\<close>

definition digitValue :: "cu \<Rightarrow> nat" where
  "digitValue c =
     (if ch CHR ''0'' \<le> c \<and> c \<le> ch CHR ''9'' then unat c - unat (ch CHR ''0'')
      else if ch CHR ''a'' \<le> c \<and> c \<le> ch CHR ''z'' then unat c - unat (ch CHR ''a'') + 10
      else unat c - unat (ch CHR ''A'') + 10)"

definition parseInt :: "jsstring \<Rightarrow> nat \<Rightarrow> nat" where
  "parseInt num radix = foldl (\<lambda>acc c. acc * radix + digitValue c) 0 num"

text \<open>
  \<^verbatim>\<open>String.fromCodePoint(cp)\<close>: a \<^verbatim>\<open>RangeError\<close> above U+10FFFF, one code unit in the
  basic plane (surrogate code points included), a surrogate pair otherwise.
\<close>

definition fromCodePoint :: "nat \<Rightarrow> jsstring result" where
  "fromCodePoint cp =
     (if cp > 0x10FFFF then Inl (RangeError InvalidCodePointMessage)
      else if cp < 0x10000 then Inr [of_nat cp]
      else Inr [of_nat (0xD800 + (cp - 0x10000) div 0x400),
                of_nat (0xDC00 + (cp - 0x10000) mod 0x400)])"

section \<open>parser.ts: names, entities, text\<close>

definition parseName :: "lexer \<Rightarrow> (xml_name \<times> lexer) result" where
  "parseName l =
     bind (expectOneOrMoreOf ALPHANUMERIC (str ''element/attribute name'') l) (\<lambda>(nm, l1).
     bind (maybeExpect (ch CHR '':'') l1) (\<lambda>(colon, l2).
       if \<not> colon then Inr (XmlName [] nm, l2)
       else
         bind (expectOneOrMoreOf ALPHANUMERIC (str ''prefixed element/attribute name'') l2)
           (\<lambda>(local, l3). Inr (XmlName nm local, l3))))"

text \<open>
  \<^verbatim>\<open>ENTITY_REFS[name].charCodeAt(0)\<close>: for a name that is not a key of the table the
  lookup gives \<^verbatim>\<open>undefined\<close> (or, for \<^verbatim>\<open>constructor\<close>, the inherited function, which has
  no \<^verbatim>\<open>charCodeAt\<close>), and the method call throws a \<^verbatim>\<open>TypeError\<close> before the test of
  \<^verbatim>\<open>cp\<close> is reached.
\<close>

definition entityRef :: "jsstring \<Rightarrow> lexer \<Rightarrow> (nat \<times> lexer) result" where
  "entityRef nm l =
     (case map_of ENTITY_REFS nm of
        None \<Rightarrow> Inl TypeError
      | Some s \<Rightarrow>
          (case charCodeAt0 s of
             None \<Rightarrow> Inl (err l (InvalidEntityReference nm))
           | Some cp \<Rightarrow>
               if cp = 0 then Inl (err l (InvalidEntityReference nm)) else Inr (cp, l)))"

definition parseEntity :: "lexer \<Rightarrow> (jsstring \<times> lexer) result" where
  "parseEntity l =
     bind (expect (ch CHR ''&'') l) (\<lambda>l1.
     bind (skipIf (ch CHR ''#'') l1) (\<lambda>(numeric, l2).
     bind
       (if numeric then
          bind (skipIf (ch CHR ''x'') l2) (\<lambda>(x, l3).
          bind (if x then Inr (True, l3) else skipIf (ch CHR ''X'') l3) (\<lambda>(hex, l4).
            if hex then
              bind (consumeWhile HEX l4 []) (\<lambda>(num, l5).
                if length num < 1 \<or> length num > 6 then Inl (err l5 HexadecimalEntityInvalid)
                else Inr (parseInt num 16, l5))
            else
              bind (consumeWhile DIGIT l4 []) (\<lambda>(num, l5).
                if length num < 1 \<or> length num > 7 then Inl (err l5 DecimalEntityInvalid)
                else Inr (parseInt num 10, l5))))
        else
          bind (consumeWhile LOWERCASE l2 []) (\<lambda>(nm, l3). entityRef nm l3))
       (\<lambda>(cp, l6).
     bind (expect (ch CHR '';'') l6) (\<lambda>l7.
       case fromCodePoint cp of
         Inl e \<Rightarrow> Inl (err l7 (InvalidCodePoint cp))
       | Inr s \<Rightarrow> Inr (s, l7)))))"

lemma bind_Inr: "bind m f = Inr y \<Longrightarrow> \<exists>x. m = Inr x \<and> f x = Inr y"
  by (cases m) auto

lemma parseName_remaining: "parseName l = Inr (n, l') \<Longrightarrow> remaining l' < remaining l"
  unfolding parseName_def
  by (fastforce dest!: bind_Inr split: if_splits
        dest: expectOneOrMoreOf_remaining maybeExpect_remaining)

lemma parseEntity_remaining: "parseEntity l = Inr (s, l') \<Longrightarrow> remaining l' < remaining l"
proof -
  assume a: "parseEntity l = Inr (s, l')"
  from a obtain l1 where l1: "expect (ch CHR ''&'') l = Inr l1"
    unfolding parseEntity_def by (auto dest!: bind_Inr)
  from a l1 obtain numeric l2 where l2: "skipIf (ch CHR ''#'') l1 = Inr (numeric, l2)"
    unfolding parseEntity_def by (auto dest!: bind_Inr)
  from a l1 l2 obtain cp l6 l7 where
    l6: "(if numeric then
          bind (skipIf (ch CHR ''x'') l2) (\<lambda>(x, l3).
          bind (if x then Inr (True, l3) else skipIf (ch CHR ''X'') l3) (\<lambda>(hex, l4).
            if hex then
              bind (consumeWhile HEX l4 []) (\<lambda>(num, l5).
                if length num < 1 \<or> length num > 6 then Inl (err l5 HexadecimalEntityInvalid)
                else Inr (parseInt num 16, l5))
            else
              bind (consumeWhile DIGIT l4 []) (\<lambda>(num, l5).
                if length num < 1 \<or> length num > 7 then Inl (err l5 DecimalEntityInvalid)
                else Inr (parseInt num 10, l5))))
        else
          bind (consumeWhile LOWERCASE l2 []) (\<lambda>(nm, l3). entityRef nm l3)) = Inr (cp, l6)"
    and l7: "expect (ch CHR '';'') l6 = Inr l7" and l': "l' = l7"
    unfolding parseEntity_def by (auto dest!: bind_Inr split: sum.splits)
  from l1 have "remaining l1 < remaining l" by (rule expect_remaining)
  moreover from l2 have "remaining l2 \<le> remaining l1" by (rule skipIf_remaining)
  moreover from l7 have "remaining l7 < remaining l6" by (rule expect_remaining)
  moreover have "remaining l6 \<le> remaining l2"
  proof (cases numeric)
    case False
    with l6 obtain nm l3 where "consumeWhile LOWERCASE l2 [] = Inr (nm, l3)"
      and "entityRef nm l3 = Inr (cp, l6)"
      by (auto dest!: bind_Inr)
    then show ?thesis
      using consumeWhile_remaining [of LOWERCASE l2 "[]" nm l3]
      by (auto simp: entityRef_def split: option.splits if_splits)
  next
    case True
    with l6 obtain x l3 hex l4 num l5 where
      "skipIf (ch CHR ''x'') l2 = Inr (x, l3)"
      "(if x then Inr (True, l3) else skipIf (ch CHR ''X'') l3) = Inr (hex, l4)"
      "consumeWhile (if hex then HEX else DIGIT) l4 [] = Inr (num, l5)" "l6 = l5"
      by (auto dest!: bind_Inr split: if_splits)
    then show ?thesis
      using skipIf_remaining [of "ch CHR ''x''" l2 x l3]
        skipIf_remaining [of "ch CHR ''X''" l3 hex l4]
        consumeWhile_remaining [of "if hex then HEX else DIGIT" l4 "[]" num l5]
      by (auto split: if_splits)
  qed
  ultimately show ?thesis using l' by simp
qed

function parseTextOrValue :: "lexer \<Rightarrow> cu \<Rightarrow> jsstring list \<Rightarrow> (jsstring \<times> lexer) result"
  where
  "parseTextOrValue l delimiter parts =
     (case peek l of
        None \<Rightarrow> Inr (concat parts, l)
      | Some c \<Rightarrow>
          if c = delimiter then Inr (concat parts, l)
          else if c = ch CHR ''&'' then
            (case parseEntity l of
               Inl e \<Rightarrow> Inl e
             | Inr (s, l') \<Rightarrow> parseTextOrValue l' delimiter (parts @ [s]))
          else
            (case consume l of
               Inl e \<Rightarrow> Inl e
             | Inr (b, l') \<Rightarrow> parseTextOrValue l' delimiter (parts @ [[b]])))"
  by pat_completeness auto
termination
  by (relation "measure (\<lambda>(l, d, ps). remaining l)")
     (auto dest: parseEntity_remaining consume_remaining)

declare parseTextOrValue.simps [simp del]


lemma parseTextOrValue_remaining:
  "parseTextOrValue l d ps = Inr (s, l') \<Longrightarrow> remaining l' \<le> remaining l"
proof (induction l d ps rule: parseTextOrValue.induct)
  case (1 l delimiter parts)
  note unf = "1.prems" [unfolded parseTextOrValue.simps [of l delimiter parts]]
  show ?case
  proof (cases "peek l")
    case None
    with unf show ?thesis by simp
  next
    case (Some c)
    consider "c = delimiter" | "c \<noteq> delimiter" "c = ch CHR ''&''"
      | "c \<noteq> delimiter" "c \<noteq> ch CHR ''&''"
      by blast
    then show ?thesis
    proof cases
      case 1
      with unf Some show ?thesis by simp
    next
      case 2
      with unf Some obtain t l1 where e: "parseEntity l = Inr (t, l1)"
        and r: "parseTextOrValue l1 delimiter (parts @ [t]) = Inr (s, l')"
        by (cases "parseEntity l") auto
      from "1.IH" (1) [OF Some 2 e refl r] parseEntity_remaining [OF e]
      show ?thesis by simp
    next
      case 3
      with unf Some obtain b l1 where e: "consume l = Inr (b, l1)"
        and r: "parseTextOrValue l1 delimiter (parts @ [[b]]) = Inr (s, l')"
        by (cases "consume l") auto
      from "1.IH" (2) [OF Some 3 e refl r] consume_remaining [OF e]
      show ?thesis by simp
    qed
  qed
qed

section \<open>parser.ts: content\<close>

text \<open>
  The loop of \<^verbatim>\<open>parseContent\<close> that skips a processing instruction, entered after
  \<^verbatim>\<open><?\<close>.
\<close>

function skipProcessingInstruction :: "lexer \<Rightarrow> lexer result" where
  "skipProcessingInstruction l =
     (case skipUntil [ch CHR 0x22, ch CHR ''?''] l 0 of
        Inl e \<Rightarrow> Inl e
      | Inr (n, l1) \<Rightarrow>
          (case skipIf (ch CHR 0x22) l1 of
             Inl e \<Rightarrow> Inl e
           | Inr (quoted, l2) \<Rightarrow>
               if quoted then
                 (case skipUntil [ch CHR 0x22] l2 0 of
                    Inl e \<Rightarrow> Inl e
                  | Inr (m, l3) \<Rightarrow>
                      (case expect (ch CHR 0x22) l3 of
                         Inl e \<Rightarrow> Inl e
                       | Inr l4 \<Rightarrow> skipProcessingInstruction l4))
               else
                 bind (expect (ch CHR ''?'') l2) (\<lambda>l3. expect (ch CHR ''>'') l3)))"
  by pat_completeness auto
termination
proof (relation "measure remaining", goal_cases)
  case 1
  show ?case by simp
next
  case (2 l x2 n l1 y quoted l2 x2a m l3 l4)
  then have "remaining l1 \<le> remaining l" "remaining l2 \<le> remaining l1"
    "remaining l3 \<le> remaining l2" "remaining l4 < remaining l3"
    by (auto dest: skipUntil_remaining skipIf_remaining expect_remaining)
  then show ?case by simp
qed

declare skipProcessingInstruction.simps [simp del]

text \<open>
  The loop of \<^verbatim>\<open>parseContent\<close> that reads the attributes of an opening tag up to
  \<^verbatim>\<open>/>\<close> or \<^verbatim>\<open>>\<close>; it returns the attributes and \<^verbatim>\<open>selfClosing\<close>.
\<close>

function parseAttrs ::
  "lexer \<Rightarrow> (xml_name \<times> jsstring) list \<Rightarrow> ((xml_name \<times> jsstring) list \<times> bool \<times> lexer) result"
  where
  "parseAttrs l attrs =
     (case skipWhile WHITESPACE l 0 of
        Inl e \<Rightarrow> Inl e
      | Inr (n, l1) \<Rightarrow>
     (case skipIf (ch CHR ''/'') l1 of
        Inl e \<Rightarrow> Inl e
      | Inr (slash, l2) \<Rightarrow>
          if slash then bind (expect (ch CHR ''>'') l2) (\<lambda>l3. Inr (attrs, True, l3))
          else
     (case skipIf (ch CHR ''>'') l2 of
        Inl e \<Rightarrow> Inl e
      | Inr (gt, l3) \<Rightarrow>
          if gt then Inr (attrs, False, l3)
          else
     (case parseName l3 of
        Inl e \<Rightarrow> Inl e
      | Inr (attrName, l4) \<Rightarrow>
     (case skipWhile WHITESPACE l4 0 of
        Inl e \<Rightarrow> Inl e
      | Inr (n1, l5) \<Rightarrow>
     (case expect (ch CHR ''='') l5 of
        Inl e \<Rightarrow> Inl e
      | Inr l6 \<Rightarrow>
     (case skipWhile WHITESPACE l6 0 of
        Inl e \<Rightarrow> Inl e
      | Inr (n2, l7) \<Rightarrow>
     (case expectOneOf QUOTE l7 of
        Inl e \<Rightarrow> Inl e
      | Inr (attrQuote, l8) \<Rightarrow>
     (case parseTextOrValue l8 attrQuote [] of
        Inl e \<Rightarrow> Inl e
      | Inr (attrValue, l9) \<Rightarrow>
     (case expect attrQuote l9 of
        Inl e \<Rightarrow> Inl e
      | Inr l10 \<Rightarrow> parseAttrs l10 (attrs @ [(attrName, attrValue)])))))))))))"
  by pat_completeness auto
termination
proof (relation "measure (\<lambda>(l, attrs). remaining l)", goal_cases)
  case 1
  show ?case by simp
next
  case (2 l attrs x2 n l1 x2a slash l2 x2b gt l3 x2c attrName l4 x2d n1 l5 l6 x2e n2 l7 x2f
      attrQuote l8 x2g attrValue l9 l10)
  then have "remaining l1 \<le> remaining l" "remaining l2 \<le> remaining l1"
    "remaining l3 \<le> remaining l2" "remaining l4 < remaining l3"
    "remaining l5 \<le> remaining l4" "remaining l6 < remaining l5"
    "remaining l7 \<le> remaining l6" "remaining l8 < remaining l7"
    "remaining l9 \<le> remaining l8" "remaining l10 < remaining l9"
    by (auto dest: skipWhile_remaining skipIf_remaining expect_remaining parseName_remaining
          expectOneOf_remaining parseTextOrValue_remaining)
  then show ?case by simp
qed

declare parseAttrs.simps [simp del]


text \<open>
  \<^verbatim>\<open>parseContent\<close> calls itself for the content of an element and continues its loop
  with the lexer that call leaves behind, so the model counts its calls down from a
  bound (\<open>None\<close>: the bound is used up).  Every call but the last of a loop consumes a
  code unit first, so \<open>parseXml\<close> starts from one more than the length of the input;
  \<open>parseContent_fuel\<close> and \<open>parseXml_returns\<close> below prove that this bound is never
  used up.

  \<^verbatim>\<open>parentElem\<close> is mutated by the source; the model returns it.  The elements created
  here have no parent, so \<^verbatim>\<open>addChild\<close> appends them.
\<close>

fun bindF :: "'a result \<Rightarrow> ('a \<Rightarrow> 'b result option) \<Rightarrow> 'b result option" where
  "bindF (Inl e) f = Some (Inl e)"
| "bindF (Inr x) f = f x"

lemma bindF_weak_cong: "m = m' \<Longrightarrow> bindF m f = bindF m' f"
  by simp

fun parseContent :: "nat \<Rightarrow> lexer \<Rightarrow> xml_node \<Rightarrow> (lexer \<times> xml_node) result option" where
  "parseContent 0 l parentElem = None"
| "parseContent (Suc fuel) l parentElem =
     bindF (parseTextOrValue l (ch CHR ''<'') []) (\<lambda>(text, l1).
       if text \<noteq> [] then parseContent fuel l1 (appendChild parentElem (Text text))
       else if isEnd l1 then Some (Inr (l1, parentElem))
       else
     bindF (expect (ch CHR ''<'') l1) (\<lambda>l2.
     bindF (skipIf (ch CHR ''!'') l2) (\<lambda>(bang, l3).
       if bang then
         bindF (skipUntil (str ''>'') l3 0) (\<lambda>(n, l4).
         bindF (expect (ch CHR ''>'') l4) (\<lambda>l5.
           parseContent fuel l5 parentElem))
       else
     bindF (skipIf (ch CHR ''?'') l3) (\<lambda>(question, l4).
       if question then
         bindF (skipProcessingInstruction l4) (\<lambda>l5. parseContent fuel l5 parentElem)
       else
     bindF (skipIf (ch CHR ''/'') l4) (\<lambda>(isClosing, l5).
     bindF (parseName l5) (\<lambda>(nm, l6).
       if isClosing then
         if name (elem_name parentElem) = [] then Some (Inl (err l6 UnexpectedClosingTag))
         else if \<not> equals nm (elem_name parentElem) then
           Some (Inl (err l6 (MismatchedClosingTag (toString parentElem) (nameToString nm))))
         else
           bindF (skipWhile WHITESPACE l6 0) (\<lambda>(n, l7).
           bindF (expect (ch CHR ''>'') l7) (\<lambda>l8. Some (Inr (l8, parentElem))))
       else
     bindF (parseAttrs l6 []) (\<lambda>(attrs, selfClosing, l7).
       if selfClosing then
         parseContent fuel l7 (appendChild parentElem (Element nm attrs []))
       else
         (case parseContent fuel l7 (Element nm attrs []) of
            None \<Rightarrow> None
          | Some (Inl e) \<Rightarrow> Some (Inl e)
          | Some (Inr (l8, elem)) \<Rightarrow>
              parseContent fuel l8 (appendChild parentElem elem)))))))))"

text \<open>The loop of \<^verbatim>\<open>parseXml\<close> over the children of the synthetic root.\<close>

fun findRoot :: "xml_node list \<Rightarrow> xml_node option \<Rightarrow> xml_node option result" where
  "findRoot [] root = Inr root"
| "findRoot (Text c # cs) root =
     (if trim c \<noteq> [] then Inl (XmlParseError TopLevelText 1 0) else findRoot cs root)"
| "findRoot (Element n as ks # cs) root =
     (if root \<noteq> None then Inl (XmlParseError MultipleTopLevelElements 1 0)
      else findRoot cs (Some (Element n as ks)))"

text \<open>
  \<^verbatim>\<open>root.detach()\<close> removes the root from the synthetic element before it is returned;
  as a value the root is returned as it is.
\<close>

definition parseXml :: "jsstring \<Rightarrow> xml_node result option" where
  "parseXml xml =
     (let dummyRoot = Element (XmlName [] []) [] [] in
      case parseContent (length xml + 1) (Lexer xml) dummyRoot of
        None \<Rightarrow> None
      | Some (Inl e) \<Rightarrow> Some (Inl e)
      | Some (Inr (l, dummyRoot')) \<Rightarrow>
          Some (bind (findRoot (elem_children dummyRoot') None) (\<lambda>root.
            case root of
              None \<Rightarrow> Inl (XmlParseError NoRootElement 1 0)
            | Some root' \<Rightarrow> Inr root')))"


section \<open>node.ts: elements in a store\<close>

text \<open>
  \<^verbatim>\<open>addChild\<close>, \<^verbatim>\<open>detach\<close>, \<^verbatim>\<open>deleteChild\<close> and \<^verbatim>\<open>matches\<close> depend on the identity of
  elements and on the \<^verbatim>\<open>parent\<close> link, so for them an element is an object in a store:
  a reference stands for the object, the store gives the fields of every object, and
  each operation returns its result (or the error it throws) with the store it leaves.
\<close>

type_synonym ref = nat

datatype XmlNode = XmlText jsstring | XmlElementRef ref

record XmlElement =
  parent :: "ref option"
  ename :: xml_name
  attrs :: "(xml_name \<times> jsstring) list"
  children :: "XmlNode list"

type_synonym store = "ref \<Rightarrow> XmlElement"

text \<open>The constructor: \<^verbatim>\<open>children\<close> starts empty.\<close>

definition new_XmlElement ::
  "ref option \<Rightarrow> xml_name \<Rightarrow> (xml_name \<times> jsstring) list \<Rightarrow> XmlElement" where
  "new_XmlElement p n as = \<lparr>parent = p, ename = n, attrs = as, children = []\<rparr>"

text \<open>\<^verbatim>\<open>xs.splice(pos, 0, x)\<close> and \<^verbatim>\<open>xs.splice(pos, 1)\<close> for a position within the array.\<close>

definition spliceInsert :: "nat \<Rightarrow> 'a \<Rightarrow> 'a list \<Rightarrow> 'a list" where
  "spliceInsert pos x xs = take pos xs @ [x] @ drop pos xs"

definition spliceRemove :: "nat \<Rightarrow> 'a list \<Rightarrow> 'a list" where
  "spliceRemove pos xs = take pos xs @ drop (pos + 1) xs"

text \<open>
  The position is an integer here; \<^verbatim>\<open>Number.isSafeInteger\<close> then only bounds it.
\<close>

definition isSafeInteger :: "int \<Rightarrow> bool" where
  "isSafeInteger i \<longleftrightarrow> - (2 ^ 53 - 1) \<le> i \<and> i \<le> 2 ^ 53 - 1"

definition addChild :: "store \<Rightarrow> ref \<Rightarrow> XmlNode \<Rightarrow> int \<Rightarrow> unit result \<times> store" where
  "addChild h this child pos =
     (if \<not> isSafeInteger pos \<or> pos < 0 \<or> pos > int (length (children (h this)))
      then (Inl (RangeError (CannotAddChildAtOutOfBoundsPosition pos)), h)
      else
        (case child of
           XmlElementRef c \<Rightarrow>
             if parent (h c) \<noteq> None
             then (Inl (ReferenceError CannotAddChildThatAlreadyHasParent), h)
             else
               (let h1 = h(c := (h c)\<lparr>parent := Some this\<rparr>) in
                (Inr (),
                 h1(this := (h1 this)\<lparr>children :=
                      spliceInsert (nat pos) child (children (h1 this))\<rparr>)))
         | XmlText t \<Rightarrow>
             (Inr (),
              h(this := (h this)\<lparr>children :=
                   spliceInsert (nat pos) child (children (h this))\<rparr>))))"

text \<open>\<^verbatim>\<open>Array.prototype.findIndex\<close>: the first index that satisfies the test, or \<open>-1\<close>.\<close>

fun findIndex :: "('a \<Rightarrow> bool) \<Rightarrow> 'a list \<Rightarrow> int" where
  "findIndex P [] = - 1"
| "findIndex P (x # xs) =
     (if P x then 0 else (let i = findIndex P xs in if i = - 1 then - 1 else i + 1))"

definition deleteChild :: "store \<Rightarrow> ref \<Rightarrow> ref \<Rightarrow> int \<times> store" where
  "deleteChild h this child =
     (let pos = findIndex (\<lambda>c. c = XmlElementRef child) (children (h this)) in
      if pos > - 1 then
        (let h1 = h(this := (h this)\<lparr>children :=
                     spliceRemove (nat pos) (children (h this))\<rparr>)
         in (pos, h1(child := (h1 child)\<lparr>parent := None\<rparr>)))
      else (pos, h))"

definition detach :: "store \<Rightarrow> ref \<Rightarrow> (ref \<times> int) result \<times> store" where
  "detach h this =
     (case parent (h this) of
        None \<Rightarrow> (Inl (Error NoParentCannotBeDetached), h)
      | Some p \<Rightarrow> (let (pos, h') = deleteChild h p this in (Inr (p, pos), h')))"

text \<open>
  The invariant of the data model: an element occurs once among the children of its
  parent and nowhere else.
\<close>

definition attachInv :: "store \<Rightarrow> bool" where
  "attachInv h \<longleftrightarrow>
     (\<forall>p c. count_list (children (h p)) (XmlElementRef c)
              = (if parent (h c) = Some p then 1 else 0))"

datatype XmlQuery = XmlQuery (query_id: "jsstring option") (query_name: "jsstring option")

datatype selector = Query XmlQuery | Elem ref

definition matches :: "store \<Rightarrow> ref \<Rightarrow> selector \<Rightarrow> bool" where
  "matches h this q =
     (case q of
        Elem other \<Rightarrow> other = this
      | Query (XmlQuery i n) \<Rightarrow>
          if i \<noteq> None
             \<and> map_option snd (find (\<lambda>(an, v). name an = str ''ID'') (attrs (h this))) = i
          then True
          else if n \<noteq> None \<and> Some (name (ename (h this))) = n then True
          else False)"

text \<open>
  Stores for the examples.  In \<open>exampleStore\<close> every element is constructed without a
  parent and element 1 is then added to element 0.  In \<open>constructedStore\<close> elements 0
  and 2 are constructed without a parent and element 1 is constructed by
  \<^verbatim>\<open>new XmlElement(e0, name, [])\<close>: the exported constructor stores the parent it is given
  and does not touch the children of that parent.  \<open>idStore\<close> holds elements with two
  attributes of local name \<^verbatim>\<open>ID\<close>.
\<close>

definition exampleStore :: store where
  "exampleStore =
     snd (addChild (\<lambda>x. new_XmlElement None (XmlName [] (str ''e'')) []) 0 (XmlElementRef 1) 0)"

definition constructedStore :: store where
  "constructedStore =
     (\<lambda>x. new_XmlElement None (XmlName [] (str ''e'')) [])
       (1 := new_XmlElement (Some 0) (XmlName [] (str ''e'')) [])"

definition idStore :: store where
  "idStore =
     (\<lambda>x. new_XmlElement None (XmlName [] (str ''a''))
        [(XmlName (str ''xml'') (str ''ID''), str ''2''), (XmlName [] (str ''ID''), str ''1'')])"

section \<open>map.ts\<close>

text \<open>
  The values of a mapped record: what a validator returns (\<open>Prim\<close>), a string,
  \<^verbatim>\<open>undefined\<close>, an array, or a record of named values.
\<close>

datatype 'p val =
    Prim 'p
  | Str jsstring
  | Undefined
  | Arr "'p val list"
  | Obj "(jsstring \<times> 'p val) list"




type_synonym 'p Validator = "path \<Rightarrow> jsstring \<Rightarrow> error + 'p val"
type_synonym 'p ElemMapFn = "xml_node \<Rightarrow> path option \<Rightarrow> error + 'p val"

record 'p AttrMapping =
  attr_name :: jsstring
  attr_ignore :: bool
  attr_optional :: bool
  attr_validator :: "'p Validator"

datatype ElemMappingMode = repeated | required | optional

record 'p ElemMapping =
  elem_mapping_name :: jsstring
  elem_mode :: ElemMappingMode
  elem_ignore :: bool
  elem_min :: "int option"
  elem_mapper :: "'p ElemMapFn"

record 'p TextMapping =
  text_name :: jsstring
  text_ignore :: bool
  text_validator :: "'p Validator option"

record 'p XmlElementMapperBuilder =
  expectedName :: "jsstring option"
  attrMappings :: "'p AttrMapping list"
  elemMappings :: "'p ElemMapping list"
  textMapping :: "'p TextMapping option"


definition expectName ::
  "jsstring \<Rightarrow> 'p XmlElementMapperBuilder \<Rightarrow> error + 'p XmlElementMapperBuilder" where
  "expectName n b =
     (if expectedName b \<noteq> None then Inl AssertionError else Inr (b\<lparr>expectedName := Some n\<rparr>))"

definition ignoreAttr ::
  "jsstring \<Rightarrow> 'p Validator \<Rightarrow> 'p XmlElementMapperBuilder \<Rightarrow> 'p XmlElementMapperBuilder" where
  "ignoreAttr n validator b =
     b\<lparr>attrMappings := attrMappings b
          @ [\<lparr>attr_name = n, attr_ignore = True, attr_optional = False,
               attr_validator = validator\<rparr>]\<rparr>"

definition maybeAttr ::
  "jsstring \<Rightarrow> 'p Validator \<Rightarrow> 'p XmlElementMapperBuilder \<Rightarrow> 'p XmlElementMapperBuilder" where
  "maybeAttr n validator b =
     b\<lparr>attrMappings := attrMappings b
          @ [\<lparr>attr_name = n, attr_ignore = False, attr_optional = True,
               attr_validator = validator\<rparr>]\<rparr>"


definition ignore :: "jsstring \<Rightarrow> 'p XmlElementMapperBuilder \<Rightarrow> 'p XmlElementMapperBuilder" where
  "ignore n b =
     b\<lparr>elemMappings := elemMappings b
          @ [\<lparr>elem_mapping_name = n, elem_mode = optional, elem_ignore = True, elem_min = None,
               elem_mapper = (\<lambda>e p. Inr Undefined)\<rparr>]\<rparr>"

definition one ::
  "jsstring \<Rightarrow> 'p ElemMapFn \<Rightarrow> 'p XmlElementMapperBuilder \<Rightarrow> 'p XmlElementMapperBuilder" where
  "one n mapper b =
     b\<lparr>elemMappings := elemMappings b
          @ [\<lparr>elem_mapping_name = n, elem_mode = required, elem_ignore = False, elem_min = None,
               elem_mapper = mapper\<rparr>]\<rparr>"

definition maybeOne ::
  "jsstring \<Rightarrow> 'p ElemMapFn \<Rightarrow> 'p XmlElementMapperBuilder \<Rightarrow> 'p XmlElementMapperBuilder" where
  "maybeOne n mapper b =
     b\<lparr>elemMappings := elemMappings b
          @ [\<lparr>elem_mapping_name = n, elem_mode = optional, elem_ignore = False, elem_min = None,
               elem_mapper = mapper\<rparr>]\<rparr>"

definition oneOrMore ::
  "jsstring \<Rightarrow> 'p ElemMapFn \<Rightarrow> 'p XmlElementMapperBuilder \<Rightarrow> 'p XmlElementMapperBuilder" where
  "oneOrMore n mapper b =
     b\<lparr>elemMappings := elemMappings b
          @ [\<lparr>elem_mapping_name = n, elem_mode = repeated, elem_ignore = False,
               elem_min = Some 1, elem_mapper = mapper\<rparr>]\<rparr>"

definition zeroOrMore ::
  "jsstring \<Rightarrow> 'p ElemMapFn \<Rightarrow> 'p XmlElementMapperBuilder \<Rightarrow> 'p XmlElementMapperBuilder" where
  "zeroOrMore n mapper b =
     b\<lparr>elemMappings := elemMappings b
          @ [\<lparr>elem_mapping_name = n, elem_mode = repeated, elem_ignore = False,
               elem_min = Some 0, elem_mapper = mapper\<rparr>]\<rparr>"


definition ignoreText ::
  "jsstring \<Rightarrow> 'p Validator \<Rightarrow> 'p XmlElementMapperBuilder \<Rightarrow> 'p XmlElementMapperBuilder" where
  "ignoreText n validator b =
     b\<lparr>textMapping := Some \<lparr>text_name = n, text_ignore = True,
                              text_validator = Some validator\<rparr>\<rparr>"












definition isText :: "xml_node \<Rightarrow> bool" where
  "isText c = (case c of Element nm as ks \<Rightarrow> False | Text s \<Rightarrow> True)"














section \<open>The input that is left\<close>

text \<open>
  What the lexer has still to read, and whether a run of characters of a set ends at the
  start of a string.
\<close>

definition rest :: "lexer \<Rightarrow> jsstring" where
  "rest l = drop (nxt l) (src l)"

definition stops :: "jsstring \<Rightarrow> jsstring \<Rightarrow> bool" where
  "stops charset cs = (case cs of [] \<Rightarrow> True | c # cs' \<Rightarrow> c \<notin> set charset)"

text \<open>
  The names the parser can read back: the local name is not empty, and prefix and local
  name are alphanumeric.
\<close>

definition wfName :: "xml_name \<Rightarrow> bool" where
  "wfName n \<longleftrightarrow>
     name n \<noteq> [] \<and> set (name n) \<subseteq> set ALPHANUMERIC \<and> set (prefix n) \<subseteq> set ALPHANUMERIC"

text \<open>
  The trees that \<open>toString\<close> writes in a form the parser reads back as they are: every
  element and attribute name can be read back, every text child is non-empty and holds
  neither \<^verbatim>\<open>&\<close> nor \<^verbatim>\<open><\<close>, and no two text children are adjacent.  Attribute values
  are not restricted.
\<close>

fun noAdjacentText :: "xml_node list \<Rightarrow> bool" where
  "noAdjacentText (c # d # cs) = (\<not> (isText c \<and> isText d) \<and> noAdjacentText (d # cs))"
| "noAdjacentText cs = True"

fun reparsable :: "xml_node \<Rightarrow> bool" where
  "reparsable (Text s) = (s \<noteq> [] \<and> ch CHR ''&'' \<notin> set s \<and> ch CHR ''<'' \<notin> set s)"
| "reparsable (Element n as cs) =
     (wfName n \<and> list_all (\<lambda>(an, v). wfName an) as \<and> list_all reparsable cs
      \<and> noAdjacentText cs)"

section \<open>Line and column of the lexer\<close>

text \<open>
  Every operation of the lexer moves the cursor through \<open>consumeOrEnd\<close> only; \<open>step\<close>
  is the lexer after one such call.
\<close>

definition step :: "lexer \<Rightarrow> lexer" where
  "step l = snd (consumeOrEnd l)"

text \<open>
  The position of the cursor after the prefix \<open>p\<close> of the input has been consumed, said
  without the counters:  a line break is a carriage return, or a line feed that does not
  directly follow a carriage return; the line is one more than the number of line breaks
  in \<open>p\<close>; the column is the number of code units of \<open>p\<close> after its last line break, a
  line feed that completes \<^verbatim>\<open>\r\n\<close> not counted.
\<close>

definition isLineBreak :: "jsstring \<Rightarrow> nat \<Rightarrow> bool" where
  "isLineBreak p i \<longleftrightarrow>
     p ! i = ch CHR 0x0D \<or> (p ! i = ch CHR 0x0A \<and> (i = 0 \<or> p ! (i - 1) \<noteq> ch CHR 0x0D))"

definition lineOf :: "jsstring \<Rightarrow> nat" where
  "lineOf p = 1 + length (filter (isLineBreak p) [0..<length p])"

definition colOf :: "jsstring \<Rightarrow> nat" where
  "colOf p =
     length (filter (\<lambda>i. (\<forall>j \<in> {i..<length p}. \<not> isLineBreak p j) \<and> p ! i \<noteq> ch CHR 0x0A)
       [0..<length p])"


section \<open>Evaluation of the parser on a given input\<close>

lemma parseContent_numeral:
  "parseContent (numeral k) l p = parseContent (Suc (pred_numeral k)) l p"
  by (simp add: numeral_eq_Suc)

lemmas lexer_eval =
  ch_def str_def Lexer_def err_def charAt_def peek_def isEnd_def consumeOrEnd_def consume_def
  expect_def expectOneOf_def maybeExpect_def maybeExpectOneOf_def maybeExpectNotOneOf_def
  skipIf_def consumeWhile.simps expectOneOrMoreOfLoop.simps expectOneOrMoreOf_def
  skipWhile.simps skipUntil.simps

lemmas charset_eval =
  r_def LOWERCASE_def UPPERCASE_def DIGIT_def HEX_def ALPHANUMERIC_def WHITESPACE_def QUOTE_def
  upt_rec

lemmas parser_eval =
  lexer_eval charset_eval ENTITY_REFS_def charCodeAt0_def digitValue_def parseInt_def
  fromCodePoint_def parseName_def entityRef_def parseEntity_def parseTextOrValue.simps
  skipProcessingInstruction.simps parseAttrs.simps parseContent_numeral parseXml_def
  XmlName_def equals_def nameToString_def trim_def isJsWhitespace_def

section \<open>The bound on the calls of parseContent\<close>

text \<open>
  Every call of \<open>parseContent\<close> but the last of a loop comes after a code unit has been
  consumed, so a bound above the number of code units left is never used up, and
  \<open>parseXml\<close> returns a result (a tree or an error) for every input.
\<close>

lemma skipProcessingInstruction_remaining:
  "skipProcessingInstruction l = Inr l' \<Longrightarrow> remaining l' \<le> remaining l"
proof (induction l rule: skipProcessingInstruction.induct)
  case (1 l)
  note unf = "1.prems" [unfolded skipProcessingInstruction.simps [of l]]
  from unf obtain n l1 where 1: "skipUntil [ch CHR 0x22, ch CHR ''?''] l 0 = Inr (n, l1)"
    by (cases "skipUntil [ch CHR 0x22, ch CHR ''?''] l 0") auto
  from unf 1 obtain quoted l2 where 2: "skipIf (ch CHR 0x22) l1 = Inr (quoted, l2)"
    by (cases "skipIf (ch CHR 0x22) l1") auto
  from skipUntil_remaining [OF 1] skipIf_remaining [OF 2]
  have r2: "remaining l2 \<le> remaining l" by simp
  show ?case
  proof (cases quoted)
    case True
    with unf 1 2 obtain m l3 where 3: "skipUntil [ch CHR 0x22] l2 0 = Inr (m, l3)"
      by (cases "skipUntil [ch CHR 0x22] l2 0") auto
    with unf 1 2 True obtain l4 where 4: "expect (ch CHR 0x22) l3 = Inr l4"
      by (cases "expect (ch CHR 0x22) l3") auto
    with unf 1 2 3 True have 5: "skipProcessingInstruction l4 = Inr l'" by simp
    from "1.IH" [OF 1 refl 2 refl _ 3 refl 4 5] True
    have "remaining l' \<le> remaining l4" by simp
    with skipUntil_remaining [OF 3] expect_remaining [OF 4] r2 show ?thesis by simp
  next
    case False
    with unf 1 2 obtain l3 where 3: "expect (ch CHR ''?'') l2 = Inr l3"
      and 4: "expect (ch CHR ''>'') l3 = Inr l'"
      by (auto dest!: bind_Inr)
    with expect_remaining [OF 3] expect_remaining [OF 4] r2 show ?thesis by simp
  qed
qed

lemma parseAttrs_remaining:
  "parseAttrs l as = Inr (as', sc, l') \<Longrightarrow> remaining l' \<le> remaining l"
proof (induction l as rule: parseAttrs.induct)
  case (1 l attrs)
  note unf = "1.prems" [unfolded parseAttrs.simps [of l attrs]]
  from unf obtain n l1 where 1: "skipWhile WHITESPACE l 0 = Inr (n, l1)"
    by (cases "skipWhile WHITESPACE l 0") auto
  from unf 1 obtain slash l2 where 2: "skipIf (ch CHR ''/'') l1 = Inr (slash, l2)"
    by (cases "skipIf (ch CHR ''/'') l1") auto
  from skipWhile_remaining [OF 1] skipIf_remaining [OF 2]
  have r2: "remaining l2 \<le> remaining l" by simp
  show ?case
  proof (cases slash)
    case True
    with unf 1 2 obtain l3 where "expect (ch CHR ''>'') l2 = Inr l3" "l' = l3"
      by (auto dest!: bind_Inr)
    with expect_remaining [of "ch CHR ''>''" l2 l3] r2 show ?thesis by simp
  next
    case False
    with unf 1 2 obtain gt l3 where 3: "skipIf (ch CHR ''>'') l2 = Inr (gt, l3)"
      by (cases "skipIf (ch CHR ''>'') l2") auto
    from skipIf_remaining [OF 3] r2 have r3: "remaining l3 \<le> remaining l" by simp
    show ?thesis
    proof (cases gt)
      case True
      with unf 1 2 3 False r3 show ?thesis by simp
    next
      case g: False
      with unf 1 2 3 False obtain attrName l4 where 4: "parseName l3 = Inr (attrName, l4)"
        by (cases "parseName l3") auto
      with unf 1 2 3 False g obtain n1 l5 where 5: "skipWhile WHITESPACE l4 0 = Inr (n1, l5)"
        by (cases "skipWhile WHITESPACE l4 0") auto
      with unf 1 2 3 4 False g obtain l6 where 6: "expect (ch CHR ''='') l5 = Inr l6"
        by (cases "expect (ch CHR ''='') l5") auto
      with unf 1 2 3 4 5 False g obtain n2 l7 where 7: "skipWhile WHITESPACE l6 0 = Inr (n2, l7)"
        by (cases "skipWhile WHITESPACE l6 0") auto
      with unf 1 2 3 4 5 6 False g obtain attrQuote l8 where
        8: "expectOneOf QUOTE l7 = Inr (attrQuote, l8)"
        by (cases "expectOneOf QUOTE l7") auto
      with unf 1 2 3 4 5 6 7 False g obtain attrValue l9 where
        9: "parseTextOrValue l8 attrQuote [] = Inr (attrValue, l9)"
        by (cases "parseTextOrValue l8 attrQuote []") auto
      with unf 1 2 3 4 5 6 7 8 False g obtain l10 where 10: "expect attrQuote l9 = Inr l10"
        by (cases "expect attrQuote l9") auto
      with unf 1 2 3 4 5 6 7 8 9 False g
      have 11: "parseAttrs l10 (attrs @ [(attrName, attrValue)]) = Inr (as', sc, l')" by simp
      from "1.IH" [OF 1 refl 2 refl _ 3 refl _ 4 refl 5 refl 6 7 refl 8 refl 9 refl 10 11]
        False g
      have "remaining l' \<le> remaining l10" by simp
      with parseName_remaining [OF 4] skipWhile_remaining [OF 5] expect_remaining [OF 6]
        skipWhile_remaining [OF 7] expectOneOf_remaining [OF 8]
        parseTextOrValue_remaining [OF 9] expect_remaining [OF 10] r3
      show ?thesis by simp
    qed
  qed
qed


lemma parseTextOrValue_progress:
  "parseTextOrValue l d ps = Inr (s, l') \<Longrightarrow>
     remaining l' < remaining l \<or> (l' = l \<and> s = concat ps)"
proof (induction l d ps rule: parseTextOrValue.induct)
  case (1 l delimiter parts)
  note unf = "1.prems" [unfolded parseTextOrValue.simps [of l delimiter parts]]
  show ?case
  proof (cases "peek l")
    case None
    with unf show ?thesis by simp
  next
    case (Some c)
    consider "c = delimiter" | "c \<noteq> delimiter" "c = ch CHR ''&''"
      | "c \<noteq> delimiter" "c \<noteq> ch CHR ''&''"
      by blast
    then show ?thesis
    proof cases
      case 1
      with unf Some show ?thesis by simp
    next
      case 2
      with unf Some obtain t l1 where e: "parseEntity l = Inr (t, l1)"
        and r: "parseTextOrValue l1 delimiter (parts @ [t]) = Inr (s, l')"
        by (cases "parseEntity l") auto
      from parseTextOrValue_remaining [OF r] parseEntity_remaining [OF e]
      show ?thesis by simp
    next
      case 3
      with unf Some obtain b l1 where e: "consume l = Inr (b, l1)"
        and r: "parseTextOrValue l1 delimiter (parts @ [[b]]) = Inr (s, l')"
        by (cases "consume l") auto
      from parseTextOrValue_remaining [OF r] consume_remaining [OF e]
      show ?thesis by simp
    qed
  qed
qed

lemma bindF_returns:
  "(\<And>x. m = Inr x \<Longrightarrow>
      \<exists>r. f x = Some r \<and> (\<forall>l' p'. r = Inr (l', p') \<longrightarrow> remaining l' \<le> n)) \<Longrightarrow>
   \<exists>r. bindF m f = Some r \<and> (\<forall>l' p'. r = Inr (l', p') \<longrightarrow> remaining l' \<le> n)"
  by (cases m) auto

lemma parseContent_fuel:
  "remaining l < fuel \<Longrightarrow>
     \<exists>r. parseContent fuel l p = Some r
       \<and> (\<forall>l' p'. r = Inr (l', p') \<longrightarrow> remaining l' \<le> remaining l)"
proof (induction fuel arbitrary: l p)
  case 0
  then show ?case by simp
next
  case (Suc f)
  let ?n = "remaining l"
  have ih: "\<exists>r. parseContent f l1 q = Some r
      \<and> (\<forall>l' p'. r = Inr (l', p') \<longrightarrow> remaining l' \<le> ?n)"
    if "remaining l1 < ?n" for l1 q
  proof -
    from that Suc.prems have "remaining l1 < f" by simp
    from Suc.IH [OF this, of q] that show ?thesis by force
  qed
  show ?case
    unfolding parseContent.simps
  proof (rule bindF_returns, clarify)
    fix tx l1
    assume 0: "parseTextOrValue l (ch CHR ''<'') [] = Inr (tx, l1)"
    from parseTextOrValue_remaining [OF 0] have r1: "remaining l1 \<le> ?n" .
    show "\<exists>r. (if tx \<noteq> [] then parseContent f l1 (appendChild p (Text tx))
          else if isEnd l1 then Some (Inr (l1, p))
          else bindF (expect (ch CHR ''<'') l1) (\<lambda>l2.
     bindF (skipIf (ch CHR ''!'') l2) (\<lambda>(bang, l3).
       if bang then
         bindF (skipUntil (str ''>'') l3 0) (\<lambda>(n, l4).
         bindF (expect (ch CHR ''>'') l4) (\<lambda>l5.
           parseContent f l5 p))
       else
     bindF (skipIf (ch CHR ''?'') l3) (\<lambda>(question, l4).
       if question then
         bindF (skipProcessingInstruction l4) (\<lambda>l5. parseContent f l5 p)
       else
     bindF (skipIf (ch CHR ''/'') l4) (\<lambda>(isClosing, l5).
     bindF (parseName l5) (\<lambda>(nm, l6).
       if isClosing then
         if name (elem_name p) = [] then Some (Inl (err l6 UnexpectedClosingTag))
         else if \<not> equals nm (elem_name p) then
           Some (Inl (err l6 (MismatchedClosingTag (toString p) (nameToString nm))))
         else
           bindF (skipWhile WHITESPACE l6 0) (\<lambda>(n, l7).
           bindF (expect (ch CHR ''>'') l7) (\<lambda>l8. Some (Inr (l8, p))))
       else
     bindF (parseAttrs l6 []) (\<lambda>(attrs, selfClosing, l7).
       if selfClosing then
         parseContent f l7 (appendChild p (Element nm attrs []))
       else
         (case parseContent f l7 (Element nm attrs []) of
            None \<Rightarrow> None
          | Some (Inl e) \<Rightarrow> Some (Inl e)
          | Some (Inr (l8, elem)) \<Rightarrow>
              parseContent f l8 (appendChild p elem))))))))) = Some r
        \<and> (\<forall>l' p'. r = Inr (l', p') \<longrightarrow> remaining l' \<le> ?n)"
    proof (cases "tx \<noteq> []")
      case True
      with parseTextOrValue_progress [OF 0] have "remaining l1 < ?n" by auto
      from ih [OF this] True show ?thesis by simp
    next
      case False
      show ?thesis
      proof (cases "isEnd l1")
        case True
        with False r1 show ?thesis by simp
      next
        case e: False
        have "\<exists>r. bindF (expect (ch CHR ''<'') l1) (\<lambda>l2.
     bindF (skipIf (ch CHR ''!'') l2) (\<lambda>(bang, l3).
       if bang then
         bindF (skipUntil (str ''>'') l3 0) (\<lambda>(n, l4).
         bindF (expect (ch CHR ''>'') l4) (\<lambda>l5.
           parseContent f l5 p))
       else
     bindF (skipIf (ch CHR ''?'') l3) (\<lambda>(question, l4).
       if question then
         bindF (skipProcessingInstruction l4) (\<lambda>l5. parseContent f l5 p)
       else
     bindF (skipIf (ch CHR ''/'') l4) (\<lambda>(isClosing, l5).
     bindF (parseName l5) (\<lambda>(nm, l6).
       if isClosing then
         if name (elem_name p) = [] then Some (Inl (err l6 UnexpectedClosingTag))
         else if \<not> equals nm (elem_name p) then
           Some (Inl (err l6 (MismatchedClosingTag (toString p) (nameToString nm))))
         else
           bindF (skipWhile WHITESPACE l6 0) (\<lambda>(n, l7).
           bindF (expect (ch CHR ''>'') l7) (\<lambda>l8. Some (Inr (l8, p))))
       else
     bindF (parseAttrs l6 []) (\<lambda>(attrs, selfClosing, l7).
       if selfClosing then
         parseContent f l7 (appendChild p (Element nm attrs []))
       else
         (case parseContent f l7 (Element nm attrs []) of
            None \<Rightarrow> None
          | Some (Inl e) \<Rightarrow> Some (Inl e)
          | Some (Inr (l8, elem)) \<Rightarrow>
              parseContent f l8 (appendChild p elem)))))))) = Some r
        \<and> (\<forall>l' p'. r = Inr (l', p') \<longrightarrow> remaining l' \<le> ?n)"
        proof (rule bindF_returns)
          fix l2 assume 2: "expect (ch CHR ''<'') l1 = Inr l2"
          from expect_remaining [OF 2] r1 have r2: "remaining l2 < ?n" by simp
          show "\<exists>r. bindF (skipIf (ch CHR ''!'') l2) (\<lambda>(bang, l3).
       if bang then
         bindF (skipUntil (str ''>'') l3 0) (\<lambda>(n, l4).
         bindF (expect (ch CHR ''>'') l4) (\<lambda>l5.
           parseContent f l5 p))
       else
     bindF (skipIf (ch CHR ''?'') l3) (\<lambda>(question, l4).
       if question then
         bindF (skipProcessingInstruction l4) (\<lambda>l5. parseContent f l5 p)
       else
     bindF (skipIf (ch CHR ''/'') l4) (\<lambda>(isClosing, l5).
     bindF (parseName l5) (\<lambda>(nm, l6).
       if isClosing then
         if name (elem_name p) = [] then Some (Inl (err l6 UnexpectedClosingTag))
         else if \<not> equals nm (elem_name p) then
           Some (Inl (err l6 (MismatchedClosingTag (toString p) (nameToString nm))))
         else
           bindF (skipWhile WHITESPACE l6 0) (\<lambda>(n, l7).
           bindF (expect (ch CHR ''>'') l7) (\<lambda>l8. Some (Inr (l8, p))))
       else
     bindF (parseAttrs l6 []) (\<lambda>(attrs, selfClosing, l7).
       if selfClosing then
         parseContent f l7 (appendChild p (Element nm attrs []))
       else
         (case parseContent f l7 (Element nm attrs []) of
            None \<Rightarrow> None
          | Some (Inl e) \<Rightarrow> Some (Inl e)
          | Some (Inr (l8, elem)) \<Rightarrow>
              parseContent f l8 (appendChild p elem))))))) = Some r
        \<and> (\<forall>l' p'. r = Inr (l', p') \<longrightarrow> remaining l' \<le> ?n)"
          proof (rule bindF_returns, clarify)
            fix bang l3 assume 3: "skipIf (ch CHR ''!'') l2 = Inr (bang, l3)"
            from skipIf_remaining [OF 3] r2 have r3: "remaining l3 < ?n" by simp
            show "\<exists>r. (if bang then
         bindF (skipUntil (str ''>'') l3 0) (\<lambda>(n, l4).
         bindF (expect (ch CHR ''>'') l4) (\<lambda>l5.
           parseContent f l5 p))
       else
     bindF (skipIf (ch CHR ''?'') l3) (\<lambda>(question, l4).
       if question then
         bindF (skipProcessingInstruction l4) (\<lambda>l5. parseContent f l5 p)
       else
     bindF (skipIf (ch CHR ''/'') l4) (\<lambda>(isClosing, l5).
     bindF (parseName l5) (\<lambda>(nm, l6).
       if isClosing then
         if name (elem_name p) = [] then Some (Inl (err l6 UnexpectedClosingTag))
         else if \<not> equals nm (elem_name p) then
           Some (Inl (err l6 (MismatchedClosingTag (toString p) (nameToString nm))))
         else
           bindF (skipWhile WHITESPACE l6 0) (\<lambda>(n, l7).
           bindF (expect (ch CHR ''>'') l7) (\<lambda>l8. Some (Inr (l8, p))))
       else
     bindF (parseAttrs l6 []) (\<lambda>(attrs, selfClosing, l7).
       if selfClosing then
         parseContent f l7 (appendChild p (Element nm attrs []))
       else
         (case parseContent f l7 (Element nm attrs []) of
            None \<Rightarrow> None
          | Some (Inl e) \<Rightarrow> Some (Inl e)
          | Some (Inr (l8, elem)) \<Rightarrow>
              parseContent f l8 (appendChild p elem))))))) = Some r
        \<and> (\<forall>l' p'. r = Inr (l', p') \<longrightarrow> remaining l' \<le> ?n)"
            proof (cases bang)
              case True
              have "\<exists>r. bindF (skipUntil (str ''>'') l3 0) (\<lambda>(n, l4).
                  bindF (expect (ch CHR ''>'') l4) (\<lambda>l5. parseContent f l5 p)) = Some r
                \<and> (\<forall>l' p'. r = Inr (l', p') \<longrightarrow> remaining l' \<le> ?n)"
              proof (rule bindF_returns, clarify)
                fix n l4 assume 4: "skipUntil (str ''>'') l3 0 = Inr (n, l4)"
                show "\<exists>r. bindF (expect (ch CHR ''>'') l4) (\<lambda>l5. parseContent f l5 p) = Some r
                  \<and> (\<forall>l' p'. r = Inr (l', p') \<longrightarrow> remaining l' \<le> ?n)"
                proof (rule bindF_returns)
                  fix l5 assume 5: "expect (ch CHR ''>'') l4 = Inr l5"
                  from skipUntil_remaining [OF 4] expect_remaining [OF 5] r3
                  have "remaining l5 < ?n" by simp
                  from ih [OF this] show "\<exists>r. parseContent f l5 p = Some r
                    \<and> (\<forall>l' p'. r = Inr (l', p') \<longrightarrow> remaining l' \<le> ?n)" .
                qed
              qed
              with True show ?thesis by simp
            next
              case nb: False
              have "\<exists>r. bindF (skipIf (ch CHR ''?'') l3) (\<lambda>(question, l4).
       if question then
         bindF (skipProcessingInstruction l4) (\<lambda>l5. parseContent f l5 p)
       else
     bindF (skipIf (ch CHR ''/'') l4) (\<lambda>(isClosing, l5).
     bindF (parseName l5) (\<lambda>(nm, l6).
       if isClosing then
         if name (elem_name p) = [] then Some (Inl (err l6 UnexpectedClosingTag))
         else if \<not> equals nm (elem_name p) then
           Some (Inl (err l6 (MismatchedClosingTag (toString p) (nameToString nm))))
         else
           bindF (skipWhile WHITESPACE l6 0) (\<lambda>(n, l7).
           bindF (expect (ch CHR ''>'') l7) (\<lambda>l8. Some (Inr (l8, p))))
       else
     bindF (parseAttrs l6 []) (\<lambda>(attrs, selfClosing, l7).
       if selfClosing then
         parseContent f l7 (appendChild p (Element nm attrs []))
       else
         (case parseContent f l7 (Element nm attrs []) of
            None \<Rightarrow> None
          | Some (Inl e) \<Rightarrow> Some (Inl e)
          | Some (Inr (l8, elem)) \<Rightarrow>
              parseContent f l8 (appendChild p elem)))))) = Some r
        \<and> (\<forall>l' p'. r = Inr (l', p') \<longrightarrow> remaining l' \<le> ?n)"
              proof (rule bindF_returns, clarify)
                fix question l4 assume 4: "skipIf (ch CHR ''?'') l3 = Inr (question, l4)"
                from skipIf_remaining [OF 4] r3 have r4: "remaining l4 < ?n" by simp
                show "\<exists>r. (if question then
         bindF (skipProcessingInstruction l4) (\<lambda>l5. parseContent f l5 p)
       else
     bindF (skipIf (ch CHR ''/'') l4) (\<lambda>(isClosing, l5).
     bindF (parseName l5) (\<lambda>(nm, l6).
       if isClosing then
         if name (elem_name p) = [] then Some (Inl (err l6 UnexpectedClosingTag))
         else if \<not> equals nm (elem_name p) then
           Some (Inl (err l6 (MismatchedClosingTag (toString p) (nameToString nm))))
         else
           bindF (skipWhile WHITESPACE l6 0) (\<lambda>(n, l7).
           bindF (expect (ch CHR ''>'') l7) (\<lambda>l8. Some (Inr (l8, p))))
       else
     bindF (parseAttrs l6 []) (\<lambda>(attrs, selfClosing, l7).
       if selfClosing then
         parseContent f l7 (appendChild p (Element nm attrs []))
       else
         (case parseContent f l7 (Element nm attrs []) of
            None \<Rightarrow> None
          | Some (Inl e) \<Rightarrow> Some (Inl e)
          | Some (Inr (l8, elem)) \<Rightarrow>
              parseContent f l8 (appendChild p elem)))))) = Some r
        \<and> (\<forall>l' p'. r = Inr (l', p') \<longrightarrow> remaining l' \<le> ?n)"
                proof (cases question)
                  case True
                  have "\<exists>r. bindF (skipProcessingInstruction l4)
                      (\<lambda>l5. parseContent f l5 p) = Some r
                    \<and> (\<forall>l' p'. r = Inr (l', p') \<longrightarrow> remaining l' \<le> ?n)"
                  proof (rule bindF_returns)
                    fix l5 assume 5: "skipProcessingInstruction l4 = Inr l5"
                    from skipProcessingInstruction_remaining [OF 5] r4
                    have "remaining l5 < ?n" by simp
                    from ih [OF this] show "\<exists>r. parseContent f l5 p = Some r
                      \<and> (\<forall>l' p'. r = Inr (l', p') \<longrightarrow> remaining l' \<le> ?n)" .
                  qed
                  with True show ?thesis by simp
                next
                  case nq: False
                  have "\<exists>r. bindF (skipIf (ch CHR ''/'') l4) (\<lambda>(isClosing, l5).
     bindF (parseName l5) (\<lambda>(nm, l6).
       if isClosing then
         if name (elem_name p) = [] then Some (Inl (err l6 UnexpectedClosingTag))
         else if \<not> equals nm (elem_name p) then
           Some (Inl (err l6 (MismatchedClosingTag (toString p) (nameToString nm))))
         else
           bindF (skipWhile WHITESPACE l6 0) (\<lambda>(n, l7).
           bindF (expect (ch CHR ''>'') l7) (\<lambda>l8. Some (Inr (l8, p))))
       else
     bindF (parseAttrs l6 []) (\<lambda>(attrs, selfClosing, l7).
       if selfClosing then
         parseContent f l7 (appendChild p (Element nm attrs []))
       else
         (case parseContent f l7 (Element nm attrs []) of
            None \<Rightarrow> None
          | Some (Inl e) \<Rightarrow> Some (Inl e)
          | Some (Inr (l8, elem)) \<Rightarrow>
              parseContent f l8 (appendChild p elem))))) = Some r
        \<and> (\<forall>l' p'. r = Inr (l', p') \<longrightarrow> remaining l' \<le> ?n)"
                  proof (rule bindF_returns, clarify)
                    fix isClosing l5 assume 5: "skipIf (ch CHR ''/'') l4 = Inr (isClosing, l5)"
                    show "\<exists>r. bindF (parseName l5) (\<lambda>(nm, l6).
       if isClosing then
         if name (elem_name p) = [] then Some (Inl (err l6 UnexpectedClosingTag))
         else if \<not> equals nm (elem_name p) then
           Some (Inl (err l6 (MismatchedClosingTag (toString p) (nameToString nm))))
         else
           bindF (skipWhile WHITESPACE l6 0) (\<lambda>(n, l7).
           bindF (expect (ch CHR ''>'') l7) (\<lambda>l8. Some (Inr (l8, p))))
       else
     bindF (parseAttrs l6 []) (\<lambda>(attrs, selfClosing, l7).
       if selfClosing then
         parseContent f l7 (appendChild p (Element nm attrs []))
       else
         (case parseContent f l7 (Element nm attrs []) of
            None \<Rightarrow> None
          | Some (Inl e) \<Rightarrow> Some (Inl e)
          | Some (Inr (l8, elem)) \<Rightarrow>
              parseContent f l8 (appendChild p elem)))) = Some r
        \<and> (\<forall>l' p'. r = Inr (l', p') \<longrightarrow> remaining l' \<le> ?n)"
                    proof (rule bindF_returns, clarify)
                      fix nm l6 assume 6: "parseName l5 = Inr (nm, l6)"
                      from skipIf_remaining [OF 5] parseName_remaining [OF 6] r4
                      have r6: "remaining l6 < ?n" by simp
                      show "\<exists>r. (if isClosing then
         if name (elem_name p) = [] then Some (Inl (err l6 UnexpectedClosingTag))
         else if \<not> equals nm (elem_name p) then
           Some (Inl (err l6 (MismatchedClosingTag (toString p) (nameToString nm))))
         else
           bindF (skipWhile WHITESPACE l6 0) (\<lambda>(n, l7).
           bindF (expect (ch CHR ''>'') l7) (\<lambda>l8. Some (Inr (l8, p))))
       else
     bindF (parseAttrs l6 []) (\<lambda>(attrs, selfClosing, l7).
       if selfClosing then
         parseContent f l7 (appendChild p (Element nm attrs []))
       else
         (case parseContent f l7 (Element nm attrs []) of
            None \<Rightarrow> None
          | Some (Inl e) \<Rightarrow> Some (Inl e)
          | Some (Inr (l8, elem)) \<Rightarrow>
              parseContent f l8 (appendChild p elem)))) = Some r
        \<and> (\<forall>l' p'. r = Inr (l', p') \<longrightarrow> remaining l' \<le> ?n)"
                      proof (cases isClosing)
                        case True
                        have "\<exists>r. bindF (skipWhile WHITESPACE l6 0) (\<lambda>(n, l7).
                            bindF (expect (ch CHR ''>'') l7) (\<lambda>l8. Some (Inr (l8, p))))
                              = Some r
                          \<and> (\<forall>l' p'. r = Inr (l', p') \<longrightarrow> remaining l' \<le> ?n)"
                        proof (rule bindF_returns, clarify)
                          fix n l7 assume 7: "skipWhile WHITESPACE l6 0 = Inr (n, l7)"
                          show "\<exists>r. bindF (expect (ch CHR ''>'') l7)
                              (\<lambda>l8. Some (Inr (l8, p))) = Some r
                            \<and> (\<forall>l' p'. r = Inr (l', p') \<longrightarrow> remaining l' \<le> ?n)"
                          proof (rule bindF_returns)
                            fix l8 assume 8: "expect (ch CHR ''>'') l7 = Inr l8"
                            from skipWhile_remaining [OF 7] expect_remaining [OF 8] r6
                            show "\<exists>r. Some (Inr (l8, p)) = Some r
                              \<and> (\<forall>l' p'. r = Inr (l', p') \<longrightarrow> remaining l' \<le> ?n)"
                              by simp
                          qed
                        qed
                        with True show ?thesis by simp
                      next
                        case nc: False
                        have "\<exists>r. bindF (parseAttrs l6 []) (\<lambda>(attrs, selfClosing, l7).
       if selfClosing then
         parseContent f l7 (appendChild p (Element nm attrs []))
       else
         (case parseContent f l7 (Element nm attrs []) of
            None \<Rightarrow> None
          | Some (Inl e) \<Rightarrow> Some (Inl e)
          | Some (Inr (l8, elem)) \<Rightarrow>
              parseContent f l8 (appendChild p elem))) = Some r
        \<and> (\<forall>l' p'. r = Inr (l', p') \<longrightarrow> remaining l' \<le> ?n)"
                        proof (rule bindF_returns, clarify)
                          fix attrs selfClosing l7
                          assume 7: "parseAttrs l6 [] = Inr (attrs, selfClosing, l7)"
                          from parseAttrs_remaining [OF 7] r6 have r7: "remaining l7 < ?n"
                            by simp
                          show "\<exists>r. (if selfClosing then
         parseContent f l7 (appendChild p (Element nm attrs []))
       else
         (case parseContent f l7 (Element nm attrs []) of
            None \<Rightarrow> None
          | Some (Inl e) \<Rightarrow> Some (Inl e)
          | Some (Inr (l8, elem)) \<Rightarrow>
              parseContent f l8 (appendChild p elem))) = Some r
        \<and> (\<forall>l' p'. r = Inr (l', p') \<longrightarrow> remaining l' \<le> ?n)"
                          proof (cases selfClosing)
                            case True
                            with ih [OF r7] show ?thesis by simp
                          next
                            case False
                            from r7 Suc.prems have "remaining l7 < f" by simp
                            from Suc.IH [OF this, of "Element nm attrs []"]
                            obtain r1 where i1: "parseContent f l7 (Element nm attrs [])
                                = Some r1"
                              and i2: "\<forall>l' p'. r1 = Inr (l', p')
                                \<longrightarrow> remaining l' \<le> remaining l7"
                              by blast
                            show ?thesis
                            proof (cases r1)
                              case (Inl e)
                              with False i1 show ?thesis by simp
                            next
                              case (Inr x)
                              obtain l8 elem where x: "x = (l8, elem)" by (cases x)
                              from i2 Inr x r7 have "remaining l8 < ?n" by simp
                              from ih [OF this, of "appendChild p elem"] False i1 Inr x
                              show ?thesis by simp
                            qed
                          qed
                        qed
                        with nc show ?thesis by simp
                      qed
                    qed
                  qed
                  with nq show ?thesis by simp
                qed
              qed
              with nb show ?thesis by simp
            qed
          qed
        qed
        with False e show ?thesis by simp
      qed
    qed
  qed
qed

lemma parseXml_returns: "\<exists>r. parseXml xml = Some r"
proof -
  have "remaining (Lexer xml) < length xml + 1" by (simp add: remaining_def Lexer_def)
  from parseContent_fuel [OF this, of "Element (XmlName [] []) [] []"]
  obtain r where "parseContent (length xml + 1) (Lexer xml) (Element (XmlName [] []) [] [])
      = Some r" by blast
  then show ?thesis unfolding parseXml_def Let_def
    by (cases r) (auto split: prod.splits)
qed

section \<open>Entity references\<close>

text \<open>
  Whatever the lexer holds: once \<^verbatim>\<open>&\<close> has been read, no \<^verbatim>\<open>#\<close> follows and the run of
  lowercase letters read as the name is not a key of the table, \<open>parseEntity\<close> ends in
  a \<^verbatim>\<open>TypeError\<close>, not in an \<^verbatim>\<open>XmlParseError\<close>.
\<close>

lemma parseEntity_unknown_name:
  assumes "expect (ch CHR ''&'') l = Inr l1"
    and "skipIf (ch CHR ''#'') l1 = Inr (False, l2)"
    and "consumeWhile LOWERCASE l2 [] = Inr (nm, l3)"
    and "map_of ENTITY_REFS nm = None"
  shows "parseEntity l = Inl TypeError"
  using assms by (simp add: parseEntity_def entityRef_def)

text \<open>
  C3.  The claim: an entity reference \<^verbatim>\<open>&name;\<close> whose name is not one of amp, apos, gt,
  lt, quot fails with an \<^verbatim>\<open>XmlParseError\<close> that carries line, column and a description.
  The code: on the document \<^verbatim>\<open><a>&foo;</a>\<close> the parser ends in a \<^verbatim>\<open>TypeError\<close>, because
  \<^verbatim>\<open>ENTITY_REFS[name].charCodeAt(0)\<close> is evaluated before the test that would raise
  the parse error.
\<close>

theorem parseXml_unknown_entity_TypeError:
  "parseXml (str ''<a>&foo;</a>'') = Some (Inl TypeError)"
  by (simp add: parser_eval cong: bind_weak_cong bindF_weak_cong)

lemma isLineBreak_snoc_old: "i < length p \<Longrightarrow> isLineBreak (p @ [c]) i = isLineBreak p i"
  by (auto simp: isLineBreak_def nth_append)

lemma isLineBreak_snoc_new:
  "isLineBreak (p @ [c]) (length p) \<longleftrightarrow>
     c = ch CHR 0x0D \<or> (c = ch CHR 0x0A \<and> (p = [] \<or> last p \<noteq> ch CHR 0x0D))"
  by (cases p rule: rev_cases) (auto simp: isLineBreak_def nth_append)

lemma lineOf_snoc:
  "lineOf (p @ [c]) = (if isLineBreak (p @ [c]) (length p) then lineOf p + 1 else lineOf p)"
proof -
  have "filter (isLineBreak (p @ [c])) [0..<length p] = filter (isLineBreak p) [0..<length p]"
    by (rule filter_cong) (auto simp: isLineBreak_snoc_old)
  then show ?thesis by (simp add: lineOf_def)
qed

lemma colOf_snoc:
  "colOf (p @ [c]) =
     (if isLineBreak (p @ [c]) (length p) then 0
      else if c \<noteq> ch CHR 0x0A then colOf p + 1 else colOf p)"
proof (cases "isLineBreak (p @ [c]) (length p)")
  case True
  have "filter (\<lambda>i. (\<forall>j \<in> {i..<length (p @ [c])}. \<not> isLineBreak (p @ [c]) j)
          \<and> (p @ [c]) ! i \<noteq> ch CHR 0x0A) [0..<length (p @ [c])] = []"
    using True by (auto simp: filter_empty_conv)
  with True show ?thesis by (simp add: colOf_def)
next
  case False
  have *: "(\<forall>j \<in> {i..<Suc (length p)}. \<not> isLineBreak (p @ [c]) j)
       \<longleftrightarrow> (\<forall>j \<in> {i..<length p}. \<not> isLineBreak p j)" if "i < length p" for i
  proof -
    have "{i..<Suc (length p)} = insert (length p) {i..<length p}"
      using that by auto
    then show ?thesis using False by (auto simp: isLineBreak_snoc_old)
  qed
  have "filter (\<lambda>i. (\<forall>j \<in> {i..<length (p @ [c])}. \<not> isLineBreak (p @ [c]) j)
          \<and> (p @ [c]) ! i \<noteq> ch CHR 0x0A) [0..<length p]
      = filter (\<lambda>i. (\<forall>j \<in> {i..<length p}. \<not> isLineBreak p j) \<and> p ! i \<noteq> ch CHR 0x0A)
          [0..<length p]"
    by (rule filter_cong) (auto simp: * nth_append)
  with False show ?thesis by (simp add: colOf_def)
qed

lemma step_position:
  assumes "nxt l < length (src l)" "line l = lineOf (take (nxt l) (src l))"
    "col l = colOf (take (nxt l) (src l))"
  shows "src (step l) = src l \<and> nxt (step l) = Suc (nxt l)
    \<and> line (step l) = lineOf (take (Suc (nxt l)) (src l))
    \<and> col (step l) = colOf (take (Suc (nxt l)) (src l))"
proof -
  let ?p = "take (nxt l) (src l)"
  have t: "take (Suc (nxt l)) (src l) = ?p @ [src l ! nxt l]"
    using assms(1) by (simp add: take_Suc_conv_app_nth)
  have len: "length ?p = nxt l" using assms(1) by simp
  have prev: "charAt (src l) (int (nxt l) - 1) \<noteq> Some (ch CHR 0x0D)
      \<longleftrightarrow> (?p = [] \<or> last ?p \<noteq> ch CHR 0x0D)"
  proof (cases "nxt l")
    case 0
    then show ?thesis by (simp add: charAt_def)
  next
    case (Suc k)
    with assms(1) have "take (nxt l) (src l) = take k (src l) @ [src l ! k]"
      by (simp add: take_Suc_conv_app_nth)
    with Suc assms(1) show ?thesis by (simp add: charAt_def)
  qed
  have br: "isLineBreak (?p @ [src l ! nxt l]) (nxt l) \<longleftrightarrow>
      src l ! nxt l = ch CHR 0x0D
      \<or> (src l ! nxt l = ch CHR 0x0A \<and> charAt (src l) (int (nxt l) - 1) \<noteq> Some (ch CHR 0x0D))"
    using isLineBreak_snoc_new [of ?p "src l ! nxt l"] len prev by simp
  show ?thesis
    unfolding t lineOf_snoc colOf_snoc len br
    using assms by (simp add: step_def consumeOrEnd_def charAt_def Let_def)
qed

lemma funpow_step_position:
  "n \<le> length s \<Longrightarrow>
     src ((step ^^ n) (Lexer s)) = s \<and> nxt ((step ^^ n) (Lexer s)) = n
     \<and> line ((step ^^ n) (Lexer s)) = lineOf (take n s)
     \<and> col ((step ^^ n) (Lexer s)) = colOf (take n s)"
proof (induction n)
  case 0
  show ?case by (simp add: Lexer_def lineOf_def colOf_def)
next
  case (Suc n)
  then show ?case using step_position [of "(step ^^ n) (Lexer s)"] by simp
qed

lemma consume_step: "consume l = Inr (c, l') \<Longrightarrow> l' = step l"
  by (auto simp: consume_def step_def split: prod.splits option.splits)

lemma consume_end: "nxt l \<ge> length (src l) \<Longrightarrow> consume l = Inl (err l UnexpectedEnd)"
  by (simp add: consume_def consumeOrEnd_def charAt_def)

text \<open>
  C8 (as amended).  After any number \<open>n\<close> of consumed code units of any input, an error
  raised by the lexer carries the line of the cursor, counted from 1, and the number of
  code units consumed on that line, which is 0 at the start of the input and directly
  after a line break: the column of the cursor counted from 0.  \<^verbatim>\<open>\r\n\<close> is one line
  break: \<^verbatim>\<open>\r\<close> always counts, \<^verbatim>\<open>\n\<close> counts unless it directly follows \<^verbatim>\<open>\r\<close>.
\<close>

theorem lexer_line_col:
  "n \<le> length s \<Longrightarrow>
     nxt ((step ^^ n) (Lexer s)) = n
     \<and> err ((step ^^ n) (Lexer s)) d = XmlParseError d (lineOf (take n s)) (colOf (take n s))"
  using funpow_step_position [of n s] by (simp add: err_def)

theorem lexer_line_col_witness:
  "(4::nat) \<le> length (str ''ab'' @ [ch CHR 0x0D, ch CHR 0x0A] @ str ''cd'')
   \<and> err ((step ^^ 4) (Lexer (str ''ab'' @ [ch CHR 0x0D, ch CHR 0x0A] @ str ''cd'')))
         UnexpectedEnd = XmlParseError UnexpectedEnd 2 0"
proof -
  let ?s = "str ''ab'' @ [ch CHR 0x0D, ch CHR 0x0A] @ str ''cd''"
  have a: "lineOf (take 4 ?s) = 2" by code_simp
  have b: "colOf (take 4 ?s) = 0" by code_simp
  have c: "(4::nat) \<le> length ?s" by (simp add: str_def)
  from lexer_line_col [OF c, of UnexpectedEnd]
  have "err ((step ^^ 4) (Lexer ?s)) UnexpectedEnd = XmlParseError UnexpectedEnd 2 0"
    unfolding a b by (rule conjunct2)
  with c show ?thesis by (rule conjI)
qed

text \<open>
  C8 (as stated) fails: on the input \<^verbatim>\<open><a\<close> followed by a line feed the parser raises its
  error with the cursor at the start of line 2, and the error carries column 0, which is
  not a column counted from 1.
\<close>

theorem error_column_zero_counterexample:
  "parseXml (str ''<a'' @ [ch CHR 0x0A])
     = Some (Inl (XmlParseError (Expected (str ''element/attribute name'')) 2 0))"
  by (simp add: parser_eval cong: bind_weak_cong bindF_weak_cong)

section \<open>End of input inside an element\<close>

text \<open>
  C2.  The claim: an opening tag that is never followed by its closing tag makes
  \<open>parseXml\<close> fail.  The code: \<open>parseContent\<close> leaves its loop at the end of the input
  whatever element it is reading the content of, so the truncated document \<^verbatim>\<open><a>\<close> is
  accepted and the element \<^verbatim>\<open>a\<close> is returned.
\<close>

theorem parseXml_truncated_accepted:
  "parseXml (str ''<a>'') = Some (Inr (Element (XmlName [] (str ''a'')) [] []))"
  by (simp add: parser_eval cong: bind_weak_cong bindF_weak_cong)


section \<open>The invariant of the store\<close>

lemma findIndex_ge: "- 1 \<le> findIndex P xs"
  by (induction xs) (auto simp: Let_def)

lemma findIndex_none: "findIndex P xs = - 1 \<longleftrightarrow> (\<forall>x \<in> set xs. \<not> P x)"
proof (induction xs)
  case Nil
  show ?case by simp
next
  case (Cons x xs)
  with findIndex_ge [of P xs] show ?case by (auto simp: Let_def)
qed

lemma findIndex_some:
  "findIndex P xs \<noteq> - 1 \<Longrightarrow>
     0 \<le> findIndex P xs \<and> nat (findIndex P xs) < length xs \<and> P (xs ! nat (findIndex P xs))
     \<and> (\<forall>j < nat (findIndex P xs). \<not> P (xs ! j))"
proof (induction xs)
  case Nil
  then show ?case by simp
next
  case (Cons x xs)
  show ?case
  proof (cases "P x")
    case True
    then show ?thesis by simp
  next
    case False
    with Cons.prems have ne: "findIndex P xs \<noteq> - 1" by (auto simp: Let_def split: if_splits)
    from Cons.IH [OF ne] have ih: "0 \<le> findIndex P xs" "nat (findIndex P xs) < length xs"
      "P (xs ! nat (findIndex P xs))" "\<forall>j < nat (findIndex P xs). \<not> P (xs ! j)"
      by auto
    from False ne have eq: "findIndex P (x # xs) = findIndex P xs + 1" by (simp add: Let_def)
    from ih(1) have n: "nat (findIndex P xs + 1) = Suc (nat (findIndex P xs))" by simp
    show ?thesis unfolding eq n using ih False by (auto simp: less_Suc_eq_0_disj)
  qed
qed

lemma count_list_spliceInsert:
  "count_list (spliceInsert n x xs) y = count_list xs y + (if x = y then 1 else 0)"
proof -
  have "count_list (take n xs @ drop n xs) y = count_list xs y" by simp
  then show ?thesis by (simp add: spliceInsert_def del: append_take_drop_id)
qed

lemma count_list_spliceRemove:
  "i < length xs \<Longrightarrow>
     count_list (spliceRemove i xs) y + (if xs ! i = y then 1 else 0) = count_list xs y"
proof -
  assume i: "i < length xs"
  then have "xs = take i xs @ [xs ! i] @ drop (Suc i) xs"
    by (simp add: id_take_nth_drop)
  then have "count_list xs y = count_list (take i xs @ [xs ! i] @ drop (Suc i) xs) y"
    by simp
  then show ?thesis by (simp add: spliceRemove_def)
qed

lemma attachInv_addChild: "attachInv h \<Longrightarrow> attachInv (snd (addChild h this child pos))"
  unfolding attachInv_def addChild_def
  by (auto simp: Let_def count_list_spliceInsert split: XmlNode.splits)

lemma attachInv_deleteChild: "attachInv h \<Longrightarrow> attachInv (snd (deleteChild h this child))"
proof -
  assume w: "attachInv h"
  let ?cs = "children (h this)"
  let ?pos = "findIndex (\<lambda>c. c = XmlElementRef child) ?cs"
  show ?thesis
  proof (cases "?pos = - 1")
    case True
    with w show ?thesis by (simp add: deleteChild_def)
  next
    case False
    from findIndex_some [OF False] have pos: "0 \<le> ?pos" "nat ?pos < length ?cs"
      "?cs ! nat ?pos = XmlElementRef child" by auto
    from pos(2,3) have "XmlElementRef child \<in> set ?cs" by (metis nth_mem)
    then have "count_list ?cs (XmlElementRef child) \<noteq> 0" by (simp add: count_list_0_iff)
    with w have par: "parent (h child) = Some this" by (auto simp: attachInv_def split: if_splits)
    have cnt: "count_list (spliceRemove (nat ?pos) ?cs) (XmlElementRef c)
        = (if c = child then 0 else count_list ?cs (XmlElementRef c))" for c
      using count_list_spliceRemove [OF pos(2), of "XmlElementRef c"] pos(3) w par
      by (auto simp: attachInv_def)
    from pos(1) have gt: "?pos > - 1" by simp
    define h' where "h' = snd (deleteChild h this child)"
    have ch: "children (h' p) = (if p = this then spliceRemove (nat ?pos) ?cs else children (h p))"
      for p
      using gt by (simp add: h'_def deleteChild_def Let_def)
    have pa: "parent (h' c) = (if c = child then None else parent (h c))" for c
      using gt by (simp add: h'_def deleteChild_def Let_def)
    have "count_list (children (h' p)) (XmlElementRef c)
        = (if parent (h' c) = Some p then 1 else 0)" for p c
      using w par by (auto simp: ch pa cnt attachInv_def)
    then show ?thesis unfolding attachInv_def h'_def by blast
  qed
qed

lemma attachInv_detach: "attachInv h \<Longrightarrow> attachInv (snd (detach h this))"
proof (cases "parent (h this)")
  case None
  assume "attachInv h"
  with None show ?thesis by (simp add: detach_def)
next
  case (Some p)
  assume "attachInv h"
  from attachInv_deleteChild [OF this, of p this] Some show ?thesis
    by (cases "deleteChild h p this") (simp add: detach_def)
qed


lemma attachInv_constructed: "attachInv (\<lambda>x. new_XmlElement None (n x) (as x))"
  by (simp add: attachInv_def new_XmlElement_def)

lemma deleteChild_present:
  assumes "attachInv h" "parent (h c) = Some p"
  shows "\<exists>i < length (children (h p)).
           children (h p) ! i = XmlElementRef c
           \<and> (\<forall>j < length (children (h p)). j \<noteq> i \<longrightarrow> children (h p) ! j \<noteq> XmlElementRef c)
           \<and> fst (deleteChild h p c) = int i
           \<and> parent (snd (deleteChild h p c) c) = None
           \<and> children (snd (deleteChild h p c) p) = spliceRemove i (children (h p))
           \<and> XmlElementRef c \<notin> set (children (snd (deleteChild h p c) p))"
proof -
  let ?cs = "children (h p)"
  let ?pos = "findIndex (\<lambda>x. x = XmlElementRef c) ?cs"
  from assms have cnt: "count_list ?cs (XmlElementRef c) = 1" by (simp add: attachInv_def)
  then have "XmlElementRef c \<in> set ?cs" by (metis count_list_0_iff zero_neq_one)
  then have ne: "?pos \<noteq> - 1" by (simp add: findIndex_none)
  from findIndex_some [OF ne] have pos: "0 \<le> ?pos" "nat ?pos < length ?cs"
    "?cs ! nat ?pos = XmlElementRef c" by auto
  from count_list_spliceRemove [OF pos(2), of "XmlElementRef c"] pos(3) cnt
  have z: "count_list (spliceRemove (nat ?pos) ?cs) (XmlElementRef c) = 0" by simp
  then have notin: "XmlElementRef c \<notin> set (spliceRemove (nat ?pos) ?cs)"
    by (simp add: count_list_0_iff)
  have uniq: "?cs ! j \<noteq> XmlElementRef c" if "j < length ?cs" "j \<noteq> nat ?pos" for j
  proof
    assume e: "?cs ! j = XmlElementRef c"
    show False
    proof (cases "j < nat ?pos")
      case True
      with findIndex_some [OF ne] e show False by auto
    next
      case False
      with that have gt: "nat ?pos < j" by simp
      then have "spliceRemove (nat ?pos) ?cs ! (j - 1) = ?cs ! j"
        using that(1) pos(2)
        by (auto simp: spliceRemove_def nth_append min_def)
      moreover have "j - 1 < length (spliceRemove (nat ?pos) ?cs)"
        using that(1) pos(2) gt by (auto simp: spliceRemove_def)
      ultimately show False using notin e by (metis nth_mem)
    qed
  qed
  from pos(1) have gt: "?pos > - 1" by simp
  have "fst (deleteChild h p c) = int (nat ?pos)"
    using gt pos(1) by (simp add: deleteChild_def Let_def)
  moreover have "parent (snd (deleteChild h p c) c) = None"
    using gt by (simp add: deleteChild_def Let_def)
  moreover have "children (snd (deleteChild h p c) p) = spliceRemove (nat ?pos) ?cs"
    using gt by (simp add: deleteChild_def Let_def)
  ultimately show ?thesis using pos(2,3) uniq notin by (intro exI [of _ "nat ?pos"]) simp
qed

section \<open>Queries\<close>

text \<open>
  C6 (as amended).  For every element and every query, \<open>matches\<close> is true iff one of the
  configured fields matches (a logical or: a query with both fields set matches on
  either alone), where the \<^verbatim>\<open>id\<close> field matches iff the first attribute whose local name
  is \<^verbatim>\<open>ID\<close>, whatever its prefix, has exactly that value, and the \<^verbatim>\<open>name\<close> field matches
  iff the local name of the element equals it.
\<close>

theorem matches_query:
  "matches h e (Query (XmlQuery i n)) \<longleftrightarrow>
     (\<exists>v. i = Some v \<and>
        (\<exists>k < length (attrs (h e)).
            name (fst (attrs (h e) ! k)) = str ''ID'' \<and> snd (attrs (h e) ! k) = v
            \<and> (\<forall>j < k. name (fst (attrs (h e) ! j)) \<noteq> str ''ID'')))
     \<or> (\<exists>m. n = Some m \<and> name (ename (h e)) = m)"
proof -
  let ?P = "\<lambda>(an, v). name an = str ''ID''"
  have f: "map_option snd (find ?P (attrs (h e))) = Some v \<longleftrightarrow>
      (\<exists>k < length (attrs (h e)).
            name (fst (attrs (h e) ! k)) = str ''ID'' \<and> snd (attrs (h e) ! k) = v
            \<and> (\<forall>j < k. name (fst (attrs (h e) ! j)) \<noteq> str ''ID''))"
    (is "?L \<longleftrightarrow> ?R") for v
  proof
    assume ?L
    then obtain a where "find ?P (attrs (h e)) = Some (a, v)" by auto
    then obtain k where k: "k < length (attrs (h e))" "?P (attrs (h e) ! k)"
      "(a, v) = attrs (h e) ! k" "\<forall>j < k. \<not> ?P (attrs (h e) ! j)"
      by (auto simp: find_Some_iff)
    from k(3) have "snd (attrs (h e) ! k) = v" by (metis snd_conv)
    with k(1,2,4) show ?R by (intro exI [of _ k]) (simp add: case_prod_beta)
  next
    assume ?R
    then obtain k where k: "k < length (attrs (h e))"
      "name (fst (attrs (h e) ! k)) = str ''ID''" "snd (attrs (h e) ! k) = v"
      "\<forall>j < k. name (fst (attrs (h e) ! j)) \<noteq> str ''ID''"
      by blast
    then have "find ?P (attrs (h e)) = Some (attrs (h e) ! k)"
      unfolding find_Some_iff by (intro exI [of _ k]) (simp add: case_prod_beta)
    with k(3) show ?L by simp
  qed
  define g where "g = map_option snd (find ?P (attrs (h e)))"
  have m: "matches h e (Query (XmlQuery i n)) \<longleftrightarrow>
      (i \<noteq> None \<and> g = i) \<or> (n \<noteq> None \<and> Some (name (ename (h e))) = n)"
    unfolding matches_def g_def by simp
  have f': "g = Some v \<longleftrightarrow>
      (\<exists>k < length (attrs (h e)).
            name (fst (attrs (h e) ! k)) = str ''ID'' \<and> snd (attrs (h e) ! k) = v
            \<and> (\<forall>j < k. name (fst (attrs (h e) ! j)) \<noteq> str ''ID''))" for v
    unfolding g_def by (rule f)
  show ?thesis unfolding m by (cases i; cases n) (auto simp: f')
qed


theorem matches_query_witness:
  "matches idStore 0 (Query (XmlQuery (Some (str ''2'')) (Some (str ''b''))))
   \<and> matches idStore 0 (Query (XmlQuery (Some (str ''7'')) (Some (str ''a''))))
   \<and> \<not> matches idStore 0 (Query (XmlQuery (Some (str ''1'')) (Some (str ''b''))))"
proof -
  have a: "attrs (idStore 0)
      = [(XmlName (str ''xml'') (str ''ID''), str ''2''), (XmlName [] (str ''ID''), str ''1'')]"
    and n: "name (ename (idStore 0)) = str ''a''"
    by (simp_all add: idStore_def new_XmlElement_def XmlName_def)
  have s: "str ''2'' \<noteq> str ''1''" "str ''7'' \<noteq> str ''2''" "str ''a'' \<noteq> str ''b''"
    by (simp_all add: str_def ch_def)
  show ?thesis
    unfolding matches_query [of idStore 0] a n
    using s by (auto simp: XmlName_def less_Suc_eq_0_disj)
qed

text \<open>
  C6 (as stated) fails: the element \<^verbatim>\<open><a xml:ID="2" ID="1"/>\<close> has an attribute literally
  named \<^verbatim>\<open>ID\<close> with the value \<^verbatim>\<open>1\<close>, and the query \<^verbatim>\<open>{id: "1"}\<close> does not match it,
  because the first attribute of local name \<^verbatim>\<open>ID\<close> is \<^verbatim>\<open>xml:ID\<close>.
\<close>

theorem matches_first_ID_counterexample:
  "\<not> matches idStore 0 (Query (XmlQuery (Some (str ''1'')) None))
   \<and> (XmlName [] (str ''ID''), str ''1'') \<in> set (attrs (idStore 0))"
  by (simp add: matches_def idStore_def new_XmlElement_def XmlName_def str_def ch_def)

section \<open>Attaching and detaching\<close>

text \<open>
  The operations keep the invariant (\<open>attachInv_addChild\<close>, \<open>attachInv_detach\<close>,
  \<open>attachInv_deleteChild\<close>) and elements constructed without a parent satisfy it
  (\<open>attachInv_constructed\<close>).  Where it holds, an element with a parent cannot be added,
  \<open>detach\<close> returns the parent and the index of the only occurrence, clears the parent
  link and removes that occurrence, and the element can then be added again.
\<close>

lemma attach_under_invariant:
  assumes inv: "attachInv h"
  shows "(parent (h c) \<noteq> None \<and> isSafeInteger pos \<and> 0 \<le> pos
            \<and> pos \<le> int (length (children (h p))) \<longrightarrow>
          addChild h p (XmlElementRef c) pos
            = (Inl (ReferenceError CannotAddChildThatAlreadyHasParent), h))
       \<and> (parent (h c) = Some p \<longrightarrow>
            parent (snd (detach h c) c) = None
            \<and> XmlElementRef c \<notin> set (children (snd (detach h c) p))
            \<and> (isSafeInteger pos' \<and> 0 \<le> pos'
                  \<and> pos' \<le> int (length (children (snd (detach h c) q))) \<longrightarrow>
                fst (addChild (snd (detach h c)) q (XmlElementRef c) pos') = Inr ()
                \<and> parent (snd (addChild (snd (detach h c)) q (XmlElementRef c) pos') c) = Some q
                \<and> children (snd (addChild (snd (detach h c)) q (XmlElementRef c) pos') q)
                    = spliceInsert (nat pos') (XmlElementRef c) (children (snd (detach h c) q))))
       \<and> (parent (h c) = Some p \<longrightarrow> count_list (children (h p)) (XmlElementRef c) = 1)"
proof -
  have 1: "addChild h p (XmlElementRef c) pos
      = (Inl (ReferenceError CannotAddChildThatAlreadyHasParent), h)"
    if "parent (h c) \<noteq> None" "isSafeInteger pos" "0 \<le> pos" "pos \<le> int (length (children (h p)))"
    using that by (simp add: addChild_def)
  have 2: "parent (snd (detach h c) c) = None
      \<and> XmlElementRef c \<notin> set (children (snd (detach h c) p))" if "parent (h c) = Some p"
    using deleteChild_present [OF inv that] that
    by (cases "deleteChild h p c") (auto simp: detach_def)
  have 3: "fst (addChild h' q (XmlElementRef c) pos') = Inr ()
      \<and> parent (snd (addChild h' q (XmlElementRef c) pos') c) = Some q
      \<and> children (snd (addChild h' q (XmlElementRef c) pos') q)
           = spliceInsert (nat pos') (XmlElementRef c) (children (h' q))"
    if "parent (h' c) = None" "isSafeInteger pos'" "0 \<le> pos'"
      "pos' \<le> int (length (children (h' q)))" for h'
    using that by (simp add: addChild_def Let_def)
  have 4: "count_list (children (h p)) (XmlElementRef c) = 1" if "parent (h c) = Some p"
    using inv that by (simp add: attachInv_def)
  show ?thesis using 1 2 3 [of "snd (detach h c)"] 4 by blast
qed

lemma detach_under_invariant:
  assumes inv: "attachInv h"
  shows "(parent (h c) = Some p \<longrightarrow>
           (\<exists>i < length (children (h p)).
              children (h p) ! i = XmlElementRef c
              \<and> (\<forall>j < length (children (h p)). j \<noteq> i \<longrightarrow> children (h p) ! j \<noteq> XmlElementRef c)
              \<and> fst (detach h c) = Inr (p, int i)
              \<and> parent (snd (detach h c) c) = None
              \<and> children (snd (detach h c) p) = spliceRemove i (children (h p))
              \<and> XmlElementRef c \<notin> set (children (snd (detach h c) p))))"
  using deleteChild_present [OF inv, of c p]
  by (cases "deleteChild h p c") (auto simp: detach_def)

lemma deleteChild_not_a_child:
  "XmlElementRef c \<notin> set (children (h p)) \<Longrightarrow> deleteChild h p c = (- 1, h)"
proof -
  assume "XmlElementRef c \<notin> set (children (h p))"
  then have "findIndex (\<lambda>x. x = XmlElementRef c) (children (h p)) = - 1"
    by (auto simp: findIndex_none)
  then show ?thesis by (simp add: deleteChild_def)
qed

lemma attachInv_exampleStore: "attachInv exampleStore"
  unfolding exampleStore_def by (intro attachInv_addChild attachInv_constructed)

text \<open>
  The constructor does not keep the invariant: an element constructed with a parent is
  not among the children of that parent.
\<close>

lemma constructedStore_0:
  "constructedStore 0 = \<lparr>parent = None, ename = XmlName [] (str ''e''), attrs = [],
     children = []\<rparr>"
  by (simp add: constructedStore_def new_XmlElement_def)

lemma constructedStore_1:
  "constructedStore (Suc 0) = \<lparr>parent = Some 0, ename = XmlName [] (str ''e''), attrs = [],
     children = []\<rparr>"
  by (simp add: constructedStore_def new_XmlElement_def)

lemma constructedStore_2:
  "constructedStore (Suc (Suc 0)) = \<lparr>parent = None, ename = XmlName [] (str ''e''), attrs = [],
     children = []\<rparr>"
  by (simp add: constructedStore_def new_XmlElement_def)

lemma not_attachInv_constructedStore: "\<not> attachInv constructedStore"
proof
  assume "attachInv constructedStore"
  then have "count_list (children (constructedStore 0)) (XmlElementRef 1)
      = (if parent (constructedStore 1) = Some 0 then 1 else 0)"
    unfolding attachInv_def by blast
  then show False by (simp add: constructedStore_0 constructedStore_1)
qed

text \<open>
  C7.  The claim: an element that has a parent cannot be added anywhere; after \<open>detach\<close>
  it has no parent, is no child of its former parent and can be added elsewhere; and an
  element with a parent occurs exactly once among the children of that parent.  The code:
  the constructor stores the parent it is given and leaves the children of that parent as
  they are, so element 1 of \<open>constructedStore\<close> has the parent 0 and occurs no time among
  the children of 0; \<open>detach\<close> of it finds no occurrence to remove and leaves the store as
  it is, the parent link still set (the comment in \<^verbatim>\<open>detach\<close> says that \<^verbatim>\<open>deleteChild\<close> will
  set \<^verbatim>\<open>this.parent\<close> to \<^verbatim>\<open>undefined\<close>); and adding it to element 2 afterwards fails with
  \<^verbatim>\<open>Cannot add child that already has parent\<close>.
\<close>

theorem constructed_child_not_attachable:
  "parent (constructedStore 1) = Some 0
   \<and> count_list (children (constructedStore 0)) (XmlElementRef 1) = 0
   \<and> snd (detach constructedStore 1) = constructedStore
   \<and> parent (snd (detach constructedStore 1) 1) = Some 0
   \<and> addChild (snd (detach constructedStore 1)) 2 (XmlElementRef 1) 0
       = (Inl (ReferenceError CannotAddChildThatAlreadyHasParent), constructedStore)"
proof -
  have d: "snd (detach constructedStore 1) = constructedStore"
    by (simp add: detach_def deleteChild_def constructedStore_0 constructedStore_1)
  show ?thesis
    unfolding d
    by (simp add: addChild_def isSafeInteger_def constructedStore_0 constructedStore_1
          constructedStore_2 numeral_2_eq_2)
qed

theorem constructed_child_not_attachable_witness:
  "addChild constructedStore 2 (XmlElementRef 1) 0
     = (Inl (ReferenceError CannotAddChildThatAlreadyHasParent), constructedStore)"
proof -
  from constructed_child_not_attachable
  have d: "snd (detach constructedStore 1) = constructedStore"
    and a: "addChild (snd (detach constructedStore 1)) 2 (XmlElementRef 1) 0
      = (Inl (ReferenceError CannotAddChildThatAlreadyHasParent), constructedStore)"
    by blast+
  from a show ?thesis unfolding d .
qed

text \<open>
  C10.  The claim: \<open>detach\<close> of an element with a parent returns the parent and the index
  at which the element occurred among the children of that parent, and afterwards the
  parent link is cleared and the element is no child of that parent.  The code: for
  element 1 of \<open>constructedStore\<close>, which the constructor was given the parent 0 for,
  \<open>detach\<close> returns the parent 0 with the index \<open>-1\<close>, at which nothing occurs, and the
  store it leaves is the one it started from, where the parent of element 1 is still 0.
\<close>

theorem constructed_child_detach:
  "detach constructedStore 1 = (Inr (0, - 1), constructedStore)
   \<and> parent (constructedStore 1) = Some 0"
  by (simp add: detach_def deleteChild_def constructedStore_0 constructedStore_1)


section \<open>The loops of the mapper\<close>





















































section \<open>Child rules of mode required\<close>





section \<open>The text rule\<close>





section \<open>Reading a given text\<close>

lemma rest_Cons: "rest l = c # cs \<Longrightarrow> nxt l < length (src l) \<and> src l ! nxt l = c"
  unfolding rest_def
  by (metis drop_eq_Nil2 hd_drop_conv_nth linorder_not_less list.distinct(1) list.sel(1))

lemma peek_rest: "peek l = (case rest l of [] \<Rightarrow> None | c # cs \<Rightarrow> Some c)"
proof (cases "rest l")
  case Nil
  then show ?thesis by (simp add: rest_def peek_def charAt_def)
next
  case (Cons c cs)
  with rest_Cons [OF Cons] show ?thesis by (simp add: peek_def charAt_def)
qed

lemma consume_run: "rest l = c # cs \<Longrightarrow> \<exists>l'. consume l = Inr (c, l') \<and> rest l' = cs"
proof -
  assume a: "rest l = c # cs"
  from rest_Cons [OF a] have n: "nxt l < length (src l)" "src l ! nxt l = c" by auto
  obtain x l' where c: "consumeOrEnd l = (x, l')" by (cases "consumeOrEnd l")
  with n have x: "x = Some c"
    by (auto simp: consumeOrEnd_def charAt_def Let_def split: if_splits)
  from consumeOrEnd_Some [OF c [unfolded x]] a have "rest l' = cs"
    by (simp add: rest_def) (metis drop_Suc list.sel(3) tl_drop)
  with c x show ?thesis by (simp add: consume_def)
qed

lemma consume_end_run: "rest l = [] \<Longrightarrow> consume l = Inl (err l UnexpectedEnd)"
  by (simp add: rest_def consume_end)

lemma expect_run: "rest l = c # cs \<Longrightarrow> \<exists>l'. expect c l = Inr l' \<and> rest l' = cs"
  using consume_run [of l c cs] by (auto simp: expect_def)

lemma expectOneOf_run:
  "rest l = c # cs \<Longrightarrow> c \<in> set charset \<Longrightarrow>
     \<exists>l'. expectOneOf charset l = Inr (c, l') \<and> rest l' = cs"
  using consume_run [of l c cs] by (auto simp: expectOneOf_def)

lemma skipIf_yes: "rest l = c # cs \<Longrightarrow> \<exists>l'. skipIf c l = Inr (True, l') \<and> rest l' = cs"
  using consume_run [of l c cs] by (auto simp: skipIf_def peek_rest)

lemma skipIf_no: "\<not> (\<exists>cs. rest l = c # cs) \<Longrightarrow> skipIf c l = Inr (False, l)"
  by (auto simp: skipIf_def peek_rest split: list.splits)

lemma maybeExpect_yes:
  "rest l = c # cs \<Longrightarrow> \<exists>l'. maybeExpect c l = Inr (True, l') \<and> rest l' = cs"
  using consume_run [of l c cs] by (auto simp: maybeExpect_def peek_rest)

lemma maybeExpect_no: "\<not> (\<exists>cs. rest l = c # cs) \<Longrightarrow> maybeExpect c l = Inr (False, l)"
  by (auto simp: maybeExpect_def peek_rest split: list.splits)

lemma maybeExpectOneOf_yes:
  "rest l = c # cs \<Longrightarrow> c \<in> set charset \<Longrightarrow>
     \<exists>l'. maybeExpectOneOf charset l = Inr (Some c, l') \<and> rest l' = cs"
  using consume_run [of l c cs] by (auto simp: maybeExpectOneOf_def peek_rest)

lemma maybeExpectOneOf_no:
  "stops charset (rest l) \<Longrightarrow> maybeExpectOneOf charset l = Inr (None, l)"
  by (auto simp: maybeExpectOneOf_def peek_rest stops_def split: list.splits)

lemma consumeWhile_run:
  "rest l = s @ cs \<Longrightarrow> set s \<subseteq> set charset \<Longrightarrow> stops charset cs \<Longrightarrow>
     \<exists>l'. consumeWhile charset l acc = Inr (acc @ s, l') \<and> rest l' = cs"
proof (induction s arbitrary: l acc)
  case Nil
  then have "maybeExpectOneOf charset l = Inr (None, l)" by (simp add: maybeExpectOneOf_no)
  with Nil show ?case by (subst consumeWhile.simps) simp
next
  case (Cons c s)
  from Cons.prems maybeExpectOneOf_yes [of l c "s @ cs" charset]
  obtain l1 where 1: "maybeExpectOneOf charset l = Inr (Some c, l1)" and r1: "rest l1 = s @ cs"
    by auto
  from Cons.IH [OF r1, of "acc @ [c]"] Cons.prems
  obtain l' where "consumeWhile charset l1 (acc @ [c]) = Inr (acc @ c # s, l')" "rest l' = cs"
    by auto
  with 1 show ?case by (subst consumeWhile.simps) simp
qed

lemma skipWhile_run:
  "rest l = s @ cs \<Longrightarrow> set s \<subseteq> set charset \<Longrightarrow> stops charset cs \<Longrightarrow>
     \<exists>l'. skipWhile charset l n = Inr (n + length s, l') \<and> rest l' = cs"
proof (induction s arbitrary: l n)
  case Nil
  then have "maybeExpectOneOf charset l = Inr (None, l)" by (simp add: maybeExpectOneOf_no)
  with Nil show ?case by (subst skipWhile.simps) simp
next
  case (Cons c s)
  from Cons.prems maybeExpectOneOf_yes [of l c "s @ cs" charset]
  obtain l1 where 1: "maybeExpectOneOf charset l = Inr (Some c, l1)" and r1: "rest l1 = s @ cs"
    by auto
  from Cons.IH [OF r1, of "n + 1"] Cons.prems
  obtain l' where "skipWhile charset l1 (n + 1) = Inr (n + 1 + length s, l')" "rest l' = cs"
    by auto
  with 1 show ?case by (subst skipWhile.simps) simp
qed

lemma skipWhile_none:
  "stops charset (rest l) \<Longrightarrow> skipWhile charset l n = Inr (n, l)"
  by (subst skipWhile.simps) (simp add: maybeExpectOneOf_no)

lemma expectOneOrMoreOf_run:
  "rest l = s @ cs \<Longrightarrow> s \<noteq> [] \<Longrightarrow> set s \<subseteq> set charset \<Longrightarrow> stops charset cs \<Longrightarrow>
     \<exists>l'. expectOneOrMoreOf charset label l = Inr (s, l') \<and> rest l' = cs"
  using consumeWhile_run [of l s cs charset "[]"]
  by (auto simp: expectOneOrMoreOf_def expectOneOrMoreOfLoop_eq)


lemma in_set_r:
  "c \<in> set (r a b) \<longleftrightarrow> (of_char a :: nat) \<le> unat c \<and> unat c \<le> (of_char b :: nat)"
proof -
  have b: "(of_char b :: nat) < 256"
    by (metis of_char_mod_256 mod_less_divisor zero_less_numeral)
  show ?thesis
  proof
    assume "c \<in> set (r a b)"
    then obtain n where n: "c = of_nat n" "of_char a \<le> n" "n \<le> of_char b"
      by (auto simp: r_def)
    from n(3) b have "n < 256" by (rule le_less_trans)
    then have "n < 2 ^ 16" by simp
    then have "unat (of_nat n :: 16 word) = n" by (simp add: unat_of_nat)
    with n show "(of_char a :: nat) \<le> unat c \<and> unat c \<le> (of_char b :: nat)" by simp
  next
    assume a: "(of_char a :: nat) \<le> unat c \<and> unat c \<le> (of_char b :: nat)"
    have "c = of_nat (unat c)" by simp
    with a show "c \<in> set (r a b)" unfolding r_def
      by (metis (no_types, lifting) atLeastLessThan_iff image_eqI le_imp_less_Suc
          set_map set_upt Suc_eq_plus1)
  qed
qed

lemma in_ALPHANUMERIC:
  "c \<in> set ALPHANUMERIC \<longleftrightarrow>
     (97 \<le> unat c \<and> unat c \<le> 122) \<or> (65 \<le> unat c \<and> unat c \<le> 90)
     \<or> (48 \<le> unat c \<and> unat c \<le> 57)"
  by (simp add: ALPHANUMERIC_def LOWERCASE_def UPPERCASE_def DIGIT_def in_set_r)

lemma in_LOWERCASE: "c \<in> set LOWERCASE \<longleftrightarrow> 97 \<le> unat c \<and> unat c \<le> 122"
  by (simp add: LOWERCASE_def in_set_r)

lemma in_WHITESPACE: "c \<in> set WHITESPACE \<longleftrightarrow> c = 32 \<or> c = 13 \<or> c = 10 \<or> c = 9"
  by (auto simp: WHITESPACE_def ch_def)

lemma colon_not_alnum: "ch CHR '':'' \<notin> set ALPHANUMERIC"
  by (simp add: in_ALPHANUMERIC ch_def)

lemma parseName_run:
  assumes r: "rest l = nameToString n @ cs" and wf: "wfName n"
    and st: "stops (ch CHR '':'' # ALPHANUMERIC) cs"
  shows "\<exists>l'. parseName l = Inr (n, l') \<and> rest l' = cs"
proof -
  from st have st1: "stops ALPHANUMERIC cs" and nc: "\<not> (\<exists>cs'. cs = ch CHR '':'' # cs')"
    by (auto simp: stops_def split: list.splits)
  have n: "n = XmlName (prefix n) (name n)" by (simp add: XmlName_def)
  show ?thesis
  proof (cases "prefix n = []")
    case True
    with r have r1: "rest l = name n @ cs" by (simp add: nameToString_def)
    from expectOneOrMoreOf_run [OF r1 _ _ st1, of "str ''element/attribute name''"] wf
    obtain l1 where 1: "expectOneOrMoreOf ALPHANUMERIC (str ''element/attribute name'') l
        = Inr (name n, l1)" and r2: "rest l1 = cs"
      by (auto simp: wfName_def)
    from nc r2 have "maybeExpect (ch CHR '':'') l1 = Inr (False, l1)"
      by (simp add: maybeExpect_no)
    with 1 r2 True n show ?thesis by (simp add: parseName_def)
  next
    case False
    with r have r1: "rest l = prefix n @ (ch CHR '':'' # name n @ cs)"
      by (simp add: nameToString_def str_def)
    have "stops ALPHANUMERIC (ch CHR '':'' # name n @ cs)"
      using colon_not_alnum by (simp add: stops_def)
    from expectOneOrMoreOf_run [OF r1 False _ this, of "str ''element/attribute name''"] wf
    obtain l1 where 1: "expectOneOrMoreOf ALPHANUMERIC (str ''element/attribute name'') l
        = Inr (prefix n, l1)" and r2: "rest l1 = ch CHR '':'' # name n @ cs"
      by (auto simp: wfName_def)
    from maybeExpect_yes [OF r2]
    obtain l2 where 2: "maybeExpect (ch CHR '':'') l1 = Inr (True, l2)"
      and r3: "rest l2 = name n @ cs" by auto
    from expectOneOrMoreOf_run [OF r3 _ _ st1, of "str ''prefixed element/attribute name''"] wf
    obtain l3 where 3: "expectOneOrMoreOf ALPHANUMERIC
        (str ''prefixed element/attribute name'') l2 = Inr (name n, l3)" and r4: "rest l3 = cs"
      by (auto simp: wfName_def)
    from 1 2 3 r4 n show ?thesis by (simp add: parseName_def)
  qed
qed

lemma parseTextOrValue_plain:
  "rest l = s @ cs \<Longrightarrow> d \<notin> set s \<Longrightarrow> ch CHR ''&'' \<notin> set s \<Longrightarrow>
   cs = [] \<or> (\<exists>cs'. cs = d # cs') \<Longrightarrow>
     \<exists>l'. parseTextOrValue l d parts = Inr (concat parts @ s, l') \<and> rest l' = cs"
proof (induction s arbitrary: l parts)
  case Nil
  then show ?case
    by (subst parseTextOrValue.simps) (auto simp: peek_rest)
next
  case (Cons c s)
  from consume_run [of l c "s @ cs"] Cons.prems
  obtain l1 where 1: "consume l = Inr (c, l1)" and r1: "rest l1 = s @ cs" by auto
  from Cons.IH [OF r1, of "parts @ [[c]]"] Cons.prems
  obtain l' where "parseTextOrValue l1 d (parts @ [[c]]) = Inr (concat (parts @ [[c]]) @ s, l')"
    "rest l' = cs" by auto
  with 1 Cons.prems show ?case
    by (subst parseTextOrValue.simps) (auto simp: peek_rest)
qed


lemma nameToString_hd:
  "wfName n \<Longrightarrow> \<exists>c t. nameToString n = c # t \<and> c \<in> set ALPHANUMERIC"
  by (cases "prefix n"; cases "name n") (auto simp: wfName_def nameToString_def)

lemma alnum_not_special:
  "c \<in> set ALPHANUMERIC \<Longrightarrow>
     c \<notin> set WHITESPACE \<and> c \<noteq> ch CHR ''/'' \<and> c \<noteq> ch CHR ''>'' \<and> c \<noteq> ch CHR ''<''
     \<and> c \<noteq> ch CHR ''&''"
  by (auto simp: in_ALPHANUMERIC in_WHITESPACE ch_def)

lemma in_QUOTE: "q \<in> set QUOTE \<longleftrightarrow> q = 39 \<or> q = 34"
  by (auto simp: QUOTE_def ch_def)

lemma parseAttrs_attr:
  assumes r: "rest l = ws @ nameToString an @ ch CHR ''='' # q # body @ q # cs"
    and ws: "set ws \<subseteq> set WHITESPACE" and wf: "wfName an" and q: "q \<in> set QUOTE"
    and body: "\<And>l1. rest l1 = body @ q # cs \<Longrightarrow>
                 \<exists>l2. parseTextOrValue l1 q [] = Inr (v, l2) \<and> rest l2 = q # cs"
  shows "\<exists>l'. parseAttrs l acc = parseAttrs l' (acc @ [(an, v)]) \<and> rest l' = cs"
proof -
  from nameToString_hd [OF wf] obtain c t where nt: "nameToString an = c # t"
    and c: "c \<in> set ALPHANUMERIC" by blast
  note sp = alnum_not_special [OF c]
  let ?after = "ch CHR ''='' # q # body @ q # cs"
  have "stops WHITESPACE (nameToString an @ ?after)" using sp nt by (simp add: stops_def)
  from skipWhile_run [OF r ws this, of 0]
  obtain l1 where 1: "skipWhile WHITESPACE l 0 = Inr (length ws, l1)"
    and r1: "rest l1 = nameToString an @ ?after" by auto
  from r1 nt sp have 2: "skipIf (ch CHR ''/'') l1 = Inr (False, l1)"
    and 3: "skipIf (ch CHR ''>'') l1 = Inr (False, l1)"
    by (simp_all add: skipIf_no)
  have "stops (ch CHR '':'' # ALPHANUMERIC) ?after"
    by (simp add: stops_def in_ALPHANUMERIC ch_def)
  from parseName_run [OF r1 wf this]
  obtain l4 where 4: "parseName l1 = Inr (an, l4)" and r4: "rest l4 = ?after" by auto
  have "stops WHITESPACE (rest l4)" unfolding r4 by (simp add: stops_def in_WHITESPACE ch_def)
  then have 5: "skipWhile WHITESPACE l4 0 = Inr (0, l4)" by (rule skipWhile_none)
  from expect_run [OF r4]
  obtain l6 where 6: "expect (ch CHR ''='') l4 = Inr l6" and r6: "rest l6 = q # body @ q # cs"
    by auto
  have "stops WHITESPACE (rest l6)" unfolding r6 using q
    by (auto simp: stops_def in_WHITESPACE in_QUOTE)
  then have 7: "skipWhile WHITESPACE l6 0 = Inr (0, l6)" by (rule skipWhile_none)
  from expectOneOf_run [OF r6 q]
  obtain l8 where 8: "expectOneOf QUOTE l6 = Inr (q, l8)" and r8: "rest l8 = body @ q # cs"
    by auto
  from body [OF r8]
  obtain l9 where 9: "parseTextOrValue l8 q [] = Inr (v, l9)" and r9: "rest l9 = q # cs"
    by auto
  from expect_run [OF r9]
  obtain l10 where 10: "expect q l9 = Inr l10" and r10: "rest l10 = cs" by auto
  have "parseAttrs l acc = parseAttrs l10 (acc @ [(an, v)])"
    by (subst parseAttrs.simps) (simp add: 1 2 3 4 5 6 7 8 9 10)
  with r10 show ?thesis by blast
qed

lemma parseAttrs_selfClosing:
  assumes r: "rest l = ch CHR ''/'' # ch CHR ''>'' # cs"
  shows "\<exists>l'. parseAttrs l acc = Inr (acc, True, l') \<and> rest l' = cs"
proof -
  have "stops WHITESPACE (rest l)" unfolding r by (simp add: stops_def in_WHITESPACE ch_def)
  then have 1: "skipWhile WHITESPACE l 0 = Inr (0, l)" by (rule skipWhile_none)
  from skipIf_yes [OF r]
  obtain l2 where 2: "skipIf (ch CHR ''/'') l = Inr (True, l2)"
    and r2: "rest l2 = ch CHR ''>'' # cs" by auto
  from expect_run [OF r2]
  obtain l3 where 3: "expect (ch CHR ''>'') l2 = Inr l3" and r3: "rest l3 = cs" by auto
  have "parseAttrs l acc = Inr (acc, True, l3)"
    by (subst parseAttrs.simps) (simp add: 1 2 3)
  with r3 show ?thesis by blast
qed

lemma parseAttrs_open:
  assumes r: "rest l = ch CHR ''>'' # cs"
  shows "\<exists>l'. parseAttrs l acc = Inr (acc, False, l') \<and> rest l' = cs"
proof -
  have "stops WHITESPACE (rest l)" unfolding r by (simp add: stops_def in_WHITESPACE ch_def)
  then have 1: "skipWhile WHITESPACE l 0 = Inr (0, l)" by (rule skipWhile_none)
  from r have 2: "skipIf (ch CHR ''/'') l = Inr (False, l)"
    by (simp add: skipIf_no ch_def)
  from skipIf_yes [OF r]
  obtain l3 where 3: "skipIf (ch CHR ''>'') l = Inr (True, l3)" and r3: "rest l3 = cs" by auto
  have "parseAttrs l acc = Inr (acc, False, l3)"
    by (subst parseAttrs.simps) (simp add: 1 2 3)
  with r3 show ?thesis by blast
qed

text \<open>The first steps of \<open>parseContent\<close> at an opening tag.\<close>

lemma parseContent_open_tag:
  assumes r: "rest l = ch CHR ''<'' # nameToString n @ cs" and wf: "wfName n"
    and st: "stops (ch CHR '':'' # ALPHANUMERIC) cs"
  shows "\<exists>l6. rest l6 = cs \<and>
    parseContent (Suc fuel) l parentElem =
      bindF (parseAttrs l6 []) (\<lambda>(attrs, selfClosing, l7).
        if selfClosing then
          parseContent fuel l7 (appendChild parentElem (Element n attrs []))
        else
          (case parseContent fuel l7 (Element n attrs []) of
             None \<Rightarrow> None
           | Some (Inl e) \<Rightarrow> Some (Inl e)
           | Some (Inr (l8, elem)) \<Rightarrow> parseContent fuel l8 (appendChild parentElem elem)))"
proof -
  from nameToString_hd [OF wf] obtain c t where nt: "nameToString n = c # t"
    and c: "c \<in> set ALPHANUMERIC" by blast
  from c have sp: "c \<noteq> ch CHR ''!''" "c \<noteq> ch CHR ''?''" "c \<noteq> ch CHR ''/''"
    by (auto simp: in_ALPHANUMERIC ch_def)
  from parseTextOrValue_plain [of l "[]" _ "ch CHR ''<''" "[]"] r
  have 0: "parseTextOrValue l (ch CHR ''<'') [] = Inr ([], l)"
    by (subst parseTextOrValue.simps) (simp add: peek_rest)
  from r have e: "\<not> isEnd l" by (simp add: isEnd_def peek_rest)
  from expect_run [OF r]
  obtain l2 where 2: "expect (ch CHR ''<'') l = Inr l2" and r2: "rest l2 = nameToString n @ cs"
    by auto
  from r2 nt sp have 3: "skipIf (ch CHR ''!'') l2 = Inr (False, l2)"
    and 4: "skipIf (ch CHR ''?'') l2 = Inr (False, l2)"
    and 5: "skipIf (ch CHR ''/'') l2 = Inr (False, l2)"
    by (simp_all add: skipIf_no)
  from parseName_run [OF r2 wf st]
  obtain l6 where 6: "parseName l2 = Inr (n, l6)" and r6: "rest l6 = cs" by auto
  show ?thesis
    by (rule exI [of _ l6]) (simp add: r6 0 e 2 3 4 5 6)
qed


lemma rest_Lexer: "rest (Lexer s) = s"
  by (simp add: rest_def Lexer_def)

lemma parseContent_at_end: "rest l = [] \<Longrightarrow> parseContent (Suc k) l p = Some (Inr (l, p))"
proof -
  assume r: "rest l = []"
  then have "parseTextOrValue l (ch CHR ''<'') [] = Inr ([], l)"
    by (subst parseTextOrValue.simps) (simp add: peek_rest)
  moreover from r have "isEnd l" by (simp add: isEnd_def peek_rest)
  ultimately show ?thesis by simp
qed

section \<open>Attribute values\<close>

text \<open>
  C9.  An attribute value is scanned up to the quote character that opened it or to
  \<^verbatim>\<open>&\<close>: for either quote character \<open>q\<close> and every value \<open>v\<close> that contains neither \<open>q\<close> nor
  \<^verbatim>\<open>&\<close> (it may contain \<^verbatim>\<open><\<close>, \<^verbatim>\<open>>\<close> and the other quote character), \<open>parseXml\<close> accepts
  the document \<^verbatim>\<open><a b=qvq/>\<close> and stores \<open>v\<close> verbatim as the value of \<^verbatim>\<open>b\<close>.
\<close>

theorem attribute_value_raw:
  assumes q: "q \<in> set QUOTE" and v: "q \<notin> set v" "ch CHR ''&'' \<notin> set v"
  shows "parseXml (str ''<a b='' @ [q] @ v @ [q] @ str ''/>'')
    = Some (Inr (Element (XmlName [] (str ''a'')) [(XmlName [] (str ''b''), v)] []))"
proof -
  let ?a = "XmlName [] (str ''a'')"
  let ?b = "XmlName [] (str ''b'')"
  let ?xml = "str ''<a b='' @ [q] @ v @ [q] @ str ''/>''"
  let ?dummy = "Element (XmlName [] []) [] []"
  have wa: "wfName ?a" and wb: "wfName ?b"
    by (simp_all add: wfName_def XmlName_def in_ALPHANUMERIC str_def ch_def)
  have x: "?xml = ch CHR ''<'' # nameToString ?a
      @ ([ch CHR '' ''] @ nameToString ?b @ ch CHR ''='' # q # v
           @ q # [ch CHR ''/'', ch CHR ''>''])"
    by (simp add: nameToString_def XmlName_def str_def)
  have st: "stops (ch CHR '':'' # ALPHANUMERIC)
      ([ch CHR '' ''] @ nameToString ?b @ ch CHR ''='' # q # v @ q # [ch CHR ''/'', ch CHR ''>''])"
    by (simp add: stops_def in_ALPHANUMERIC ch_def)
  define k where "k = length v + 8"
  have len: "length ?xml + 1 = Suc (Suc k)" by (simp add: str_def k_def)
  from parseContent_open_tag [OF rest_Lexer [of ?xml, unfolded x] wa st, of "Suc k" ?dummy]
  obtain l6 where r6: "rest l6 = [ch CHR '' ''] @ nameToString ?b @ ch CHR ''='' # q # v
        @ q # [ch CHR ''/'', ch CHR ''>'']"
    and pc: "parseContent (Suc (Suc k)) (Lexer ?xml) ?dummy =
      bindF (parseAttrs l6 []) (\<lambda>(attrs, selfClosing, l7).
        if selfClosing then
          parseContent (Suc k) l7 (appendChild ?dummy (Element ?a attrs []))
        else
          (case parseContent (Suc k) l7 (Element ?a attrs []) of
             None \<Rightarrow> None
           | Some (Inl e) \<Rightarrow> Some (Inl e)
           | Some (Inr (l8, elem)) \<Rightarrow>
               parseContent (Suc k) l8 (appendChild ?dummy elem)))"
    unfolding x by blast
  have body: "\<exists>l2. parseTextOrValue l1 q [] = Inr (v, l2)
      \<and> rest l2 = q # [ch CHR ''/'', ch CHR ''>'']"
    if "rest l1 = v @ q # [ch CHR ''/'', ch CHR ''>'']" for l1
    using parseTextOrValue_plain [OF that v, of "[]"] by simp
  from parseAttrs_attr [OF r6 _ wb q body, of "[]"]
  obtain l' where a1: "parseAttrs l6 [] = parseAttrs l' [(?b, v)]"
    and r': "rest l' = [ch CHR ''/'', ch CHR ''>'']"
    by (auto simp: in_WHITESPACE ch_def)
  from parseAttrs_selfClosing [OF r', of "[(?b, v)]"]
  obtain l7 where a2: "parseAttrs l' [(?b, v)] = Inr ([(?b, v)], True, l7)"
    and r7: "rest l7 = []" by auto
  have "parseContent (Suc (Suc k)) (Lexer ?xml) ?dummy
      = parseContent (Suc k) l7 (Element (XmlName [] []) [] [Element ?a [(?b, v)] []])"
    unfolding pc a1 a2 by simp
  also have "\<dots> = Some (Inr (l7, Element (XmlName [] []) [] [Element ?a [(?b, v)] []]))"
    by (rule parseContent_at_end [OF r7])
  finally have "parseContent (length ?xml + 1) (Lexer ?xml) ?dummy
      = Some (Inr (l7, Element (XmlName [] []) [] [Element ?a [(?b, v)] []]))"
    unfolding len .
  then show ?thesis unfolding parseXml_def Let_def by simp
qed

theorem attribute_value_raw_witness:
  "parseXml (str ''<a b='' @ [ch CHR 0x22] @ (str ''<>'' @ [ch CHR 0x27]) @ [ch CHR 0x22]
      @ str ''/>'')
    = Some (Inr (Element (XmlName [] (str ''a''))
        [(XmlName [] (str ''b''), str ''<>'' @ [ch CHR 0x27])] []))"
  by (rule attribute_value_raw) (simp_all add: QUOTE_def str_def ch_def)

section \<open>Reading what toString writes\<close>

lemma replaceAll_Nil: "replaceAll c rep [] = []"
  by (simp add: replaceAll_def)

lemma replaceAll_append: "replaceAll c rep (a @ b) = replaceAll c rep a @ replaceAll c rep b"
  by (simp add: replaceAll_def)

lemma encodeXmlEntities_Nil: "encodeXmlEntities [] = []"
  by (simp add: encodeXmlEntities_def replaceAll_Nil)

lemma encodeXmlEntities_append:
  "encodeXmlEntities (a @ b) = encodeXmlEntities a @ encodeXmlEntities b"
  by (simp add: encodeXmlEntities_def replaceAll_append)

lemma encodeXmlEntities_single:
  "encodeXmlEntities [c] =
     (if c = ch CHR ''&'' then str ''&amp;''
      else if c = ch CHR ''<'' then str ''&lt;''
      else if c = ch CHR 0x22 then str ''&quot;''
      else if c = ch CHR 0x27 then str ''&apos;''
      else if c = ch CHR ''>'' then str ''&gt;''
      else [c])"
  by (simp add: encodeXmlEntities_def replaceAll_def str_def ch_def)

lemma encodeXmlEntities_Cons:
  "encodeXmlEntities (c # s) = encodeXmlEntities [c] @ encodeXmlEntities s"
  using encodeXmlEntities_append [of "[c]" s] by simp

lemma parseEntity_run:
  assumes r: "rest l = ch CHR ''&'' # nm @ ch CHR '';'' # cs"
    and nm: "set nm \<subseteq> set LOWERCASE" "nm \<noteq> []"
    and e: "map_of ENTITY_REFS nm = Some [c]" and c: "c \<noteq> 0"
  shows "\<exists>l'. parseEntity l = Inr ([c], l') \<and> rest l' = cs"
proof -
  from expect_run [OF r]
  obtain l1 where 1: "expect (ch CHR ''&'') l = Inr l1"
    and r1: "rest l1 = nm @ ch CHR '';'' # cs" by auto
  from nm obtain a t where nt: "nm = a # t" and a: "a \<in> set LOWERCASE"
    by (cases nm) auto
  from a have "a \<noteq> ch CHR ''#''" by (auto simp: in_LOWERCASE ch_def)
  with r1 nt have 2: "skipIf (ch CHR ''#'') l1 = Inr (False, l1)"
    by (simp add: skipIf_no)
  have "stops LOWERCASE (ch CHR '';'' # cs)" by (simp add: stops_def in_LOWERCASE ch_def)
  from consumeWhile_run [OF r1 nm(1) this, of "[]"]
  obtain l3 where 3: "consumeWhile LOWERCASE l1 [] = Inr (nm, l3)"
    and r3: "rest l3 = ch CHR '';'' # cs" by auto
  from c have "unat c \<noteq> 0" by (simp add: unat_eq_0)
  with e have 4: "entityRef nm l3 = Inr (unat c, l3)"
    by (simp add: entityRef_def charCodeAt0_def)
  from expect_run [OF r3]
  obtain l7 where 7: "expect (ch CHR '';'') l3 = Inr l7" and r7: "rest l7 = cs" by auto
  have "unat c < 2 ^ 16" using unsigned_less [of c, where ?'a = nat] by simp
  then have 8: "fromCodePoint (unat c) = Inr [c]" by (simp add: fromCodePoint_def)
  have "parseEntity l = Inr ([c], l7)"
    by (simp add: parseEntity_def 1 2 3 4 7 8)
  with r7 show ?thesis by blast
qed

lemma parseEntity_encoded:
  assumes c: "c \<in> {ch CHR ''&'', ch CHR ''<'', ch CHR 0x22, ch CHR 0x27, ch CHR ''>''}"
    and r: "rest l = encodeXmlEntities [c] @ cs"
  shows "\<exists>l'. parseEntity l = Inr ([c], l') \<and> rest l' = cs"
proof -
  from c obtain nm where enc: "encodeXmlEntities [c] = ch CHR ''&'' # nm @ [ch CHR '';'']"
    and nm: "set nm \<subseteq> set LOWERCASE" "nm \<noteq> []"
    and e: "map_of ENTITY_REFS nm = Some [c]" and c0: "c \<noteq> 0"
    by (auto simp: encodeXmlEntities_single str_def ch_def in_LOWERCASE ENTITY_REFS_def)
  from r enc have "rest l = ch CHR ''&'' # nm @ ch CHR '';'' # cs" by simp
  from parseEntity_run [OF this nm e c0] show ?thesis .
qed

lemma encodeXmlEntities_hd:
  "\<exists>a t. encodeXmlEntities [c] = a # t \<and> a \<noteq> ch CHR 0x22
     \<and> (a = ch CHR ''&'' \<longleftrightarrow>
          c \<in> {ch CHR ''&'', ch CHR ''<'', ch CHR 0x22, ch CHR 0x27, ch CHR ''>''})
     \<and> (a \<noteq> ch CHR ''&'' \<longrightarrow> a = c \<and> t = [])"
  by (auto simp: encodeXmlEntities_single str_def ch_def)

lemma parseTextOrValue_encoded:
  "rest l = encodeXmlEntities v @ ch CHR 0x22 # cs \<Longrightarrow>
     \<exists>l'. parseTextOrValue l (ch CHR 0x22) parts = Inr (concat parts @ v, l')
       \<and> rest l' = ch CHR 0x22 # cs"
proof (induction v arbitrary: l parts)
  case Nil
  then show ?case
    by (subst parseTextOrValue.simps) (auto simp: peek_rest encodeXmlEntities_Nil)
next
  case (Cons c v)
  let ?tail = "encodeXmlEntities v @ ch CHR 0x22 # cs"
  from Cons.prems have r: "rest l = encodeXmlEntities [c] @ ?tail"
    by (subst (asm) encodeXmlEntities_Cons) simp
  from encodeXmlEntities_hd [of c] obtain a t where at: "encodeXmlEntities [c] = a # t"
    and aq: "a \<noteq> ch CHR 0x22"
    and amp: "a = ch CHR ''&'' \<longleftrightarrow>
          c \<in> {ch CHR ''&'', ch CHR ''<'', ch CHR 0x22, ch CHR 0x27, ch CHR ''>''}"
    and plain: "a \<noteq> ch CHR ''&'' \<longrightarrow> a = c \<and> t = []"
    by blast
  from r at have p: "peek l = Some a" by (simp add: peek_rest)
  show ?case
  proof (cases "a = ch CHR ''&''")
    case True
    with amp have "c \<in> {ch CHR ''&'', ch CHR ''<'', ch CHR 0x22, ch CHR 0x27, ch CHR ''>''}"
      by simp
    from parseEntity_encoded [OF this r]
    obtain l1 where 1: "parseEntity l = Inr ([c], l1)" and r1: "rest l1 = ?tail" by auto
    from Cons.IH [OF r1, of "parts @ [[c]]"]
    obtain l' where "parseTextOrValue l1 (ch CHR 0x22) (parts @ [[c]])
        = Inr (concat (parts @ [[c]]) @ v, l')" "rest l' = ch CHR 0x22 # cs" by auto
    with 1 p aq True show ?thesis
      by (subst parseTextOrValue.simps) simp
  next
    case False
    with plain have ac: "a = c" "t = []" by auto
    from r at ac have "rest l = c # ?tail" by simp
    from consume_run [OF this]
    obtain l1 where 1: "consume l = Inr (c, l1)" and r1: "rest l1 = ?tail" by auto
    from Cons.IH [OF r1, of "parts @ [[c]]"]
    obtain l' where "parseTextOrValue l1 (ch CHR 0x22) (parts @ [[c]])
        = Inr (concat (parts @ [[c]]) @ v, l')" "rest l' = ch CHR 0x22 # cs" by auto
    with 1 p aq False show ?thesis
      by (subst parseTextOrValue.simps) simp
  qed
qed

lemma parseAttrs_printed:
  "rest l = concat (map (\<lambda>(an, v). str '' '' @ nameToString an @ str ''='' @ [ch CHR 0x22]
                        @ encodeXmlEntities v @ [ch CHR 0x22]) as) @ cs \<Longrightarrow>
   list_all (\<lambda>(an, v). wfName an) as \<Longrightarrow>
     \<exists>l'. parseAttrs l acc = parseAttrs l' (acc @ as) \<and> rest l' = cs"
proof (induction as arbitrary: l acc)
  case Nil
  then show ?case by auto
next
  case (Cons a as)
  obtain an v where a: "a = (an, v)" by (cases a)
  let ?tail = "concat (map (\<lambda>(an, v). str '' '' @ nameToString an @ str ''='' @ [ch CHR 0x22]
                        @ encodeXmlEntities v @ [ch CHR 0x22]) as) @ cs"
  from Cons.prems a have r: "rest l = [ch CHR '' ''] @ nameToString an
      @ ch CHR ''='' # ch CHR 0x22 # encodeXmlEntities v @ ch CHR 0x22 # ?tail"
    by (simp add: str_def)
  from Cons.prems a have wf: "wfName an" and wfs: "list_all (\<lambda>(an, v). wfName an) as"
    by auto
  have q: "ch CHR 0x22 \<in> set QUOTE" by (simp add: QUOTE_def)
  have ws: "set [ch CHR '' ''] \<subseteq> set WHITESPACE" by (simp add: WHITESPACE_def)
  have body: "\<exists>l2. parseTextOrValue l1 (ch CHR 0x22) [] = Inr (v, l2)
      \<and> rest l2 = ch CHR 0x22 # ?tail"
    if "rest l1 = encodeXmlEntities v @ ch CHR 0x22 # ?tail" for l1
    using parseTextOrValue_encoded [OF that, of "[]"] by simp
  from parseAttrs_attr [OF r ws wf q body, of acc]
  obtain l1 where 1: "parseAttrs l acc = parseAttrs l1 (acc @ [(an, v)])"
    and r1: "rest l1 = ?tail" by auto
  from Cons.IH [OF r1 wfs, of "acc @ [(an, v)]"]
  obtain l' where "parseAttrs l1 (acc @ [(an, v)]) = parseAttrs l' ((acc @ [(an, v)]) @ as)"
    "rest l' = cs" by auto
  with 1 a show ?case by auto
qed


lemma parseContent_text_step:
  assumes r: "rest l = s @ cs" and s: "s \<noteq> []" "ch CHR ''&'' \<notin> set s" "ch CHR ''<'' \<notin> set s"
    and cs: "cs = [] \<or> (\<exists>cs'. cs = ch CHR ''<'' # cs')"
  shows "\<exists>l'. rest l' = cs \<and>
    parseContent (Suc f) l p = parseContent f l' (appendChild p (Text s))"
proof -
  from parseTextOrValue_plain [OF r s(3) s(2) cs, of "[]"]
  obtain l1 where "parseTextOrValue l (ch CHR ''<'') [] = Inr (s, l1)" "rest l1 = cs"
    by auto
  with s(1) show ?thesis by auto
qed

lemma parseContent_close_step:
  assumes r: "rest l = str ''</'' @ nameToString n @ str ''>'' @ cs" and wf: "wfName n"
  shows "\<exists>l'. rest l' = cs \<and>
    parseContent (Suc f) l (Element n as ks) = Some (Inr (l', Element n as ks))"
proof -
  from r have r0: "rest l = ch CHR ''<'' # ch CHR ''/'' # nameToString n @ ch CHR ''>'' # cs"
    by (simp add: str_def)
  then have 0: "parseTextOrValue l (ch CHR ''<'') [] = Inr ([], l)"
    by (subst parseTextOrValue.simps) (simp add: peek_rest)
  from r0 have e: "\<not> isEnd l" by (simp add: isEnd_def peek_rest)
  from expect_run [OF r0]
  obtain l2 where 2: "expect (ch CHR ''<'') l = Inr l2"
    and r2: "rest l2 = ch CHR ''/'' # nameToString n @ ch CHR ''>'' # cs" by auto
  from r2 have 3: "skipIf (ch CHR ''!'') l2 = Inr (False, l2)"
    and 4: "skipIf (ch CHR ''?'') l2 = Inr (False, l2)"
    by (simp_all add: skipIf_no ch_def)
  from skipIf_yes [OF r2]
  obtain l5 where 5: "skipIf (ch CHR ''/'') l2 = Inr (True, l5)"
    and r5: "rest l5 = nameToString n @ ch CHR ''>'' # cs" by auto
  have "stops (ch CHR '':'' # ALPHANUMERIC) (ch CHR ''>'' # cs)"
    by (simp add: stops_def in_ALPHANUMERIC ch_def)
  from parseName_run [OF r5 wf this]
  obtain l6 where 6: "parseName l5 = Inr (n, l6)" and r6: "rest l6 = ch CHR ''>'' # cs"
    by auto
  have "stops WHITESPACE (rest l6)" unfolding r6 by (simp add: stops_def in_WHITESPACE ch_def)
  then have 7: "skipWhile WHITESPACE l6 0 = Inr (0, l6)" by (rule skipWhile_none)
  from expect_run [OF r6]
  obtain l8 where 8: "expect (ch CHR ''>'') l6 = Inr l8" and r8: "rest l8 = cs" by auto
  from wf have nn: "name n \<noteq> []" by (simp add: wfName_def)
  have "parseContent (Suc f) l (Element n as ks) = Some (Inr (l8, Element n as ks))"
    by (simp add: 0 e 2 3 4 5 6 7 8 nn equals_def)
  with r8 show ?thesis by blast
qed

lemma parseContent_element_step:
  assumes r: "rest l = toString (Element n as ks) @ cs" and wf: "wfName n"
    and was: "list_all (\<lambda>(an, v). wfName an) as"
    and inner: "\<And>l7. ks \<noteq> [] \<Longrightarrow>
        rest l7 = concat (map toString ks) @ str ''</'' @ nameToString n @ str ''>'' @ cs \<Longrightarrow>
        \<exists>l8. rest l8 = cs \<and> parseContent f l7 (Element n as []) = Some (Inr (l8, Element n as ks))"
  shows "\<exists>l'. rest l' = cs \<and>
    parseContent (Suc f) l (Element pn pas pks)
      = parseContent f l' (Element pn pas (pks @ [Element n as ks]))"
proof -
  let ?as = "concat (map (\<lambda>(an, v). str '' '' @ nameToString an @ str ''='' @ [ch CHR 0x22]
                        @ encodeXmlEntities v @ [ch CHR 0x22]) as)"
  let ?end = "(if ks \<noteq> []
          then str ''>'' @ concat (map toString ks) @ str ''</'' @ nameToString n @ str ''>''
          else str ''/>'') @ cs"
  from r have r0: "rest l = ch CHR ''<'' # nameToString n @ (?as @ ?end)"
    by (simp add: str_def)
  have st: "stops (ch CHR '':'' # ALPHANUMERIC) (?as @ ?end)"
    by (cases as) (auto simp: stops_def in_ALPHANUMERIC ch_def str_def)
  from parseContent_open_tag [OF r0 wf st, of f "Element pn pas pks"]
  obtain l6 where r6: "rest l6 = ?as @ ?end"
    and pc: "parseContent (Suc f) l (Element pn pas pks) =
      bindF (parseAttrs l6 []) (\<lambda>(attrs, selfClosing, l7).
        if selfClosing then
          parseContent f l7 (appendChild (Element pn pas pks) (Element n attrs []))
        else
          (case parseContent f l7 (Element n attrs []) of
             None \<Rightarrow> None
           | Some (Inl e) \<Rightarrow> Some (Inl e)
           | Some (Inr (l8, elem)) \<Rightarrow>
               parseContent f l8 (appendChild (Element pn pas pks) elem)))"
    by blast
  from parseAttrs_printed [OF r6 was, of "[]"]
  obtain l' where a1: "parseAttrs l6 [] = parseAttrs l' as" and r': "rest l' = ?end"
    by auto
  show ?thesis
  proof (cases "ks = []")
    case True
    with r' have "rest l' = ch CHR ''/'' # ch CHR ''>'' # cs" by (simp add: str_def)
    from parseAttrs_selfClosing [OF this, of as]
    obtain l7 where a2: "parseAttrs l' as = Inr (as, True, l7)" and r7: "rest l7 = cs"
      by auto
    have "parseContent (Suc f) l (Element pn pas pks)
        = parseContent f l7 (Element pn pas (pks @ [Element n as ks]))"
      unfolding pc a1 a2 using True by simp
    with r7 show ?thesis by blast
  next
    case False
    with r' have "rest l' = ch CHR ''>'' # concat (map toString ks) @ str ''</''
        @ nameToString n @ str ''>'' @ cs" by (simp add: str_def)
    from parseAttrs_open [OF this, of as]
    obtain l7 where a2: "parseAttrs l' as = Inr (as, False, l7)"
      and r7: "rest l7 = concat (map toString ks) @ str ''</'' @ nameToString n @ str ''>'' @ cs"
      by auto
    from inner [OF False r7]
    obtain l8 where r8: "rest l8 = cs"
      and i: "parseContent f l7 (Element n as []) = Some (Inr (l8, Element n as ks))"
      by auto
    have "parseContent (Suc f) l (Element pn pas pks)
        = parseContent f l8 (Element pn pas (pks @ [Element n as ks]))"
      unfolding pc a1 a2 by (simp add: i)
    with r8 show ?thesis by blast
  qed
qed


lemma toString_Element_hd: "\<exists>t. toString (Element n as ks) = ch CHR ''<'' # t"
  by (simp add: str_def)

lemma toString_reparsable_length: "reparsable c \<Longrightarrow> 0 < length (toString c)"
  by (cases c) (simp_all add: str_def)

lemma parseContent_children:
  assumes step: "\<And>c f l pn pas pks cs. c \<in> set ks \<Longrightarrow> \<not> isText c \<Longrightarrow>
      rest l = toString c @ cs \<Longrightarrow> length (rest l) < Suc f \<Longrightarrow>
      \<exists>l'. rest l' = cs \<and>
        parseContent (Suc f) l (Element pn pas pks) = parseContent f l' (Element pn pas (pks @ [c]))"
    and ok: "list_all reparsable ks" "noAdjacentText ks" and wf: "wfName n"
    and r: "rest l = concat (map toString ks) @ str ''</'' @ nameToString n @ str ''>'' @ cs"
    and f: "length (rest l) < f"
  shows "\<exists>l'. rest l' = cs \<and>
    parseContent f l (Element n as pre) = Some (Inr (l', Element n as (pre @ ks)))"
  using step ok r f
proof (induction ks arbitrary: l f pre)
  case Nil
  from Nil.prems(5) obtain f' where f: "f = Suc f'" by (cases f) auto
  from Nil.prems(4) have "rest l = str ''</'' @ nameToString n @ str ''>'' @ cs" by simp
  from parseContent_close_step [OF this wf, of f' as pre] show ?case unfolding f by simp
next
  case (Cons c ks)
  let ?tail = "concat (map toString ks) @ str ''</'' @ nameToString n @ str ''>'' @ cs"
  from Cons.prems(5) obtain f' where f: "f = Suc f'" by (cases f) auto
  from Cons.prems(4) have r: "rest l = toString c @ ?tail" by simp
  from Cons.prems(2) have rc: "reparsable c" and rks: "list_all reparsable ks" by auto
  from Cons.prems(3) have na: "noAdjacentText ks" by (cases ks) auto
  have "\<exists>l1. rest l1 = ?tail \<and>
      parseContent (Suc f') l (Element n as pre) = parseContent f' l1 (Element n as (pre @ [c]))"
  proof (cases c)
    case (Text s)
    have "\<exists>t. ?tail = ch CHR ''<'' # t"
    proof (cases ks)
      case Nil
      then show ?thesis by (simp add: str_def)
    next
      case (Cons d ds)
      with Cons.prems(3) Text have "\<not> isText d" by (simp add: isText_def)
      then obtain dn das dks where "d = Element dn das dks"
        by (cases d) (auto simp: isText_def)
      with Cons show ?thesis by (simp add: str_def)
    qed
    then have t: "?tail = [] \<or> (\<exists>t. ?tail = ch CHR ''<'' # t)" by blast
    from rc Text have s: "s \<noteq> []" "ch CHR ''&'' \<notin> set s" "ch CHR ''<'' \<notin> set s" by auto
    from r Text have "rest l = s @ ?tail" by simp
    from parseContent_text_step [OF this s t, of f' "Element n as pre"] Text
    show ?thesis by simp
  next
    case (Element cn cas cks)
    then have "\<not> isText c" by (simp add: isText_def)
    from Cons.prems(1) [OF _ this r, of f' n as pre] Cons.prems(5) f
    show ?thesis by simp
  qed
  then obtain l1 where r1: "rest l1 = ?tail"
    and 1: "parseContent (Suc f') l (Element n as pre)
      = parseContent f' l1 (Element n as (pre @ [c]))" by blast
  have "length (rest l) = length (toString c) + length (rest l1)" unfolding r r1 by simp
  with toString_reparsable_length [OF rc] Cons.prems(5) f
  have f1: "length (rest l1) < f'" by linarith
  have "\<exists>l'. rest l' = cs \<and>
      parseContent f' l1 (Element n as (pre @ [c])) = Some (Inr (l', Element n as ((pre @ [c]) @ ks)))"
    by (rule Cons.IH [OF _ rks na r1 f1]) (rule Cons.prems(1), simp_all)
  with 1 f show ?case by simp
qed

lemma parseContent_element:
  "reparsable t \<Longrightarrow> \<not> isText t \<Longrightarrow> rest l = toString t @ cs \<Longrightarrow> length (rest l) < Suc f \<Longrightarrow>
     \<exists>l'. rest l' = cs \<and>
       parseContent (Suc f) l (Element pn pas pks) = parseContent f l' (Element pn pas (pks @ [t]))"
proof (induction t arbitrary: l cs f pn pas pks)
  case (Text s)
  then show ?case by (simp add: isText_def)
next
  case (Element n as ks)
  from Element.prems(1) have wf: "wfName n" and was: "list_all (\<lambda>(an, v). wfName an) as"
    and rks: "list_all reparsable ks" and na: "noAdjacentText ks" by auto
  have inner: "\<exists>l8. rest l8 = cs \<and>
      parseContent f l7 (Element n as []) = Some (Inr (l8, Element n as ks))"
    if ne: "ks \<noteq> []"
      and r7: "rest l7 = concat (map toString ks) @ str ''</'' @ nameToString n @ str ''>'' @ cs"
    for l7
  proof -
    from Element.prems(3) ne have "length (rest l) > length (rest l7)"
      unfolding r7 by (simp add: str_def)
    with Element.prems(4) have f7: "length (rest l7) < f" by linarith
    have "\<exists>l8. rest l8 = cs \<and>
        parseContent f l7 (Element n as []) = Some (Inr (l8, Element n as ([] @ ks)))"
    proof (rule parseContent_children [OF _ rks na wf r7 f7])
      fix c f l pn pas pks cs
      assume c: "c \<in> set ks" "\<not> isText c" "rest l = toString c @ cs" "length (rest l) < Suc f"
      from rks c(1) have "reparsable c" by (simp add: list_all_iff)
      from Element.IH [OF c(1) this c(2) c(3) c(4)]
      show "\<exists>l'. rest l' = cs \<and>
        parseContent (Suc f) l (Element pn pas pks)
          = parseContent f l' (Element pn pas (pks @ [c]))" .
    qed
    then show ?thesis by simp
  qed
  from parseContent_element_step [OF Element.prems(3) wf was inner] show ?case by blast
qed

section \<open>Printing and parsing again\<close>

text \<open>
  C1 (as amended).  For every element tree in which every element and attribute name has
  a non-empty alphanumeric local name and an alphanumeric or empty prefix, every text
  child is non-empty and contains neither \<^verbatim>\<open>&\<close> nor \<^verbatim>\<open><\<close>, and no two text children are
  adjacent, \<open>parseXml\<close> of the string that \<open>toString\<close> produces returns the tree itself:
  the same names, the same attribute pairs in the same order and the same children in
  order and kind.  Attribute values may be any strings, since \<open>toString\<close> escapes them.
\<close>

theorem toString_parseXml:
  assumes "reparsable (Element n as ks)"
  shows "parseXml (toString (Element n as ks)) = Some (Inr (Element n as ks))"
proof -
  let ?t = "Element n as ks"
  let ?xml = "toString ?t"
  have r: "rest (Lexer ?xml) = ?xml @ []" by (simp add: rest_Lexer)
  have f: "length (rest (Lexer ?xml)) < Suc (length ?xml)" by (simp add: rest_Lexer)
  have t: "\<not> isText ?t" by (simp add: isText_def)
  from parseContent_element [OF assms t r f, of "XmlName [] []" "[]" "[]"]
  obtain l' where r': "rest l' = []"
    and 1: "parseContent (Suc (length ?xml)) (Lexer ?xml) (Element (XmlName [] []) [] [])
      = parseContent (length ?xml) l' (Element (XmlName [] []) [] [?t])"
    by auto
  from toString_Element_hd [of n as ks] obtain k where k: "length ?xml = Suc k"
    by (cases "length ?xml") auto
  have "parseContent (length ?xml + 1) (Lexer ?xml) (Element (XmlName [] []) [] [])
      = parseContent (Suc (length ?xml)) (Lexer ?xml) (Element (XmlName [] []) [] [])"
    by (simp only: Suc_eq_plus1)
  also note 1
  also have "parseContent (length ?xml) l' (Element (XmlName [] []) [] [?t])
      = Some (Inr (l', Element (XmlName [] []) [] [?t]))"
    unfolding k by (rule parseContent_at_end [OF r'])
  finally show ?thesis unfolding parseXml_def Let_def by simp
qed

theorem toString_parseXml_witness:
  "parseXml (toString
      (Element (XmlName (str ''x'') (str ''doc''))
         [(XmlName [] (str ''title''), str ''a<b & c>d'' @ [ch CHR 0x22, ch CHR 0x27])]
         [Text (str ''one > two''),
          Element (XmlName [] (str ''br'')) [] [],
          Text (str '' ''),
          Element (XmlName [] (str ''p'')) [(XmlName [] (str ''id''), [])] [Text (str ''x'')]]))
   = Some (Inr
      (Element (XmlName (str ''x'') (str ''doc''))
         [(XmlName [] (str ''title''), str ''a<b & c>d'' @ [ch CHR 0x22, ch CHR 0x27])]
         [Text (str ''one > two''),
          Element (XmlName [] (str ''br'')) [] [],
          Text (str '' ''),
          Element (XmlName [] (str ''p'')) [(XmlName [] (str ''id''), [])] [Text (str ''x'')]]))"
  by (rule toString_parseXml)
     (simp add: wfName_def XmlName_def in_ALPHANUMERIC isText_def str_def ch_def)

text \<open>
  C1 (as stated) fails: two adjacent text children come back as one, an empty text child
  does not come back, a name that is not alphanumeric is written as it is and not read
  back, and \<open>toString\<close> does not escape text children, so that the text \<^verbatim>\<open><\<close> is written as
  it is and the result is not read back, and the text \<^verbatim>\<open>&lt;\<close> comes back as \<^verbatim>\<open><\<close>.
\<close>

theorem toString_parseXml_counterexample:
  "parseXml (toString (Element (XmlName [] (str ''a'')) [] [Text (str ''x''), Text (str ''y'')]))
     = Some (Inr (Element (XmlName [] (str ''a'')) [] [Text (str ''xy'')]))
   \<and> parseXml (toString (Element (XmlName [] (str ''a'')) [] [Text []]))
       = Some (Inr (Element (XmlName [] (str ''a'')) [] []))
   \<and> parseXml (toString (Element (XmlName [] (str ''a-b'')) [] []))
       = Some (Inl (XmlParseError (Expected (str ''element/attribute name'')) 1 2))
   \<and> toString (Element (XmlName [] (str ''a'')) [] [Text (str ''<'')]) = str ''<a><</a>''
   \<and> parseXml (toString (Element (XmlName [] (str ''a'')) [] [Text (str ''<'')]))
       = Some (Inl (XmlParseError (Expected (str ''element/attribute name'')) 1 4))
   \<and> parseXml (toString (Element (XmlName [] (str ''a'')) [] [Text (str ''&lt;'')]))
       = Some (Inr (Element (XmlName [] (str ''a'')) [] [Text (str ''<'')]))"
proof -
  have 6: "parseXml (toString (Element (XmlName [] (str ''a'')) [] [Text (str ''&lt;'')]))
       = Some (Inr (Element (XmlName [] (str ''a'')) [] [Text (str ''<'')]))"
    by (simp add: parser_eval cong: bind_weak_cong bindF_weak_cong)
  have 5: "parseXml (toString (Element (XmlName [] (str ''a-b'')) [] []))
       = Some (Inl (XmlParseError (Expected (str ''element/attribute name'')) 1 2))"
    by (simp add: parser_eval cong: bind_weak_cong bindF_weak_cong)
  have 1: "parseXml (toString (Element (XmlName [] (str ''a'')) [] [Text (str ''x''), Text (str ''y'')]))
     = Some (Inr (Element (XmlName [] (str ''a'')) [] [Text (str ''xy'')]))"
    by (simp add: parser_eval cong: bind_weak_cong bindF_weak_cong)
  have 2: "parseXml (toString (Element (XmlName [] (str ''a'')) [] [Text []]))
       = Some (Inr (Element (XmlName [] (str ''a'')) [] []))"
    by (simp add: parser_eval cong: bind_weak_cong bindF_weak_cong)
  have 3: "toString (Element (XmlName [] (str ''a'')) [] [Text (str ''<'')]) = str ''<a><</a>''"
    by (simp add: str_def nameToString_def XmlName_def)
  have 4: "parseXml (toString (Element (XmlName [] (str ''a'')) [] [Text (str ''<'')]))
       = Some (Inl (XmlParseError (Expected (str ''element/attribute name'')) 1 4))"
    by (simp add: parser_eval cong: bind_weak_cong bindF_weak_cong)
  from 1 2 3 4 5 6 show ?thesis by (intro conjI)
qed

end
